theory Spec2Isabelle
  imports Main "HOL-Library.Multiset"
begin

section \<open>The state document of netlify/functions/state.js\<close>

text \<open>
  The handler keeps one JSON document (state.json) with the fields \<open>users\<close>, \<open>queue\<close>,
  \<open>spots\<close> and \<open>lastReset\<close>. Identifiers of users and queue entries are produced by
  \<open>Date.now()\<close>, so they are modelled as integers; spot identifiers, spot types and
  user preferences are strings. A spot's \<open>userId\<close> is \<open>null\<close> or a number. The field
  names of the source (\<open>id\<close>, \<open>userId\<close>, ...) are prefixed by the record they belong to.

  The model covers documents and payloads of this shape: every document has its four
  fields, every number is an integer (positions and \<open>delta\<close> included; the rounding of
  JavaScript numbers beyond 2^53 is not modelled), and the comparisons \<open>===\<close> and \<open>!==\<close>
  are between values of the same type. A string is a sequence of UTF-16 code units below
  256 (the Latin-1 range), one \<open>char\<close> per code unit. A stored object that is not a state
  document cannot be held by the model of the store: an invocation that writes one
  (\<open>writeAll\<close> with a payload that is not a state document) has no result in the model.
\<close>

record user =
  u_id :: int
  u_name :: string
  u_pref :: string

record spot =
  s_id :: string
  s_type :: string
  s_label :: string
  s_userId :: "int option"

record queue_entry =
  q_id :: int
  q_userId :: int
  q_position :: int

record state =
  users :: "user list"
  queue :: "queue_entry list"
  spots :: "spot list"
  lastReset :: "int option"

text \<open>\<open>defaultState()\<close>, lines 37-49.\<close>

definition defaultState :: state where
  "defaultState =
     \<lparr>users = [],
      queue = [],
      spots =
        [\<lparr>s_id = ''tesla-1'', s_type = ''Tesla'', s_label = ''Tesla #1'', s_userId = None\<rparr>,
         \<lparr>s_id = ''tesla-2'', s_type = ''Tesla'', s_label = ''Tesla #2'', s_userId = None\<rparr>,
         \<lparr>s_id = ''chargepoint-1'', s_type = ''ChargePoint'', s_label = ''ChargePoint #1'',
          s_userId = None\<rparr>,
         \<lparr>s_id = ''chargepoint-2'', s_type = ''ChargePoint'', s_label = ''ChargePoint #2'',
          s_userId = None\<rparr>],
      lastReset = None\<rparr>"

text \<open>\<open>eligible(pref, type)\<close>, line 51.\<close>

definition eligible :: "string \<Rightarrow> string \<Rightarrow> bool" where
  "eligible pref type = (pref = ''Both'' \<or> pref = type)"

section \<open>JavaScript primitives used by the handler\<close>

text \<open>
  \<open>Array.prototype.findIndex\<close>: the index of the first element satisfying the predicate;
  JavaScript's \<open>-1\<close> is \<open>None\<close>.
\<close>

fun findIndex :: "('a \<Rightarrow> bool) \<Rightarrow> 'a list \<Rightarrow> nat option" where
  "findIndex P [] = None"
| "findIndex P (x # xs) = (if P x then Some 0 else map_option Suc (findIndex P xs))"

text \<open>\<open>xs.splice(idx, 1)\<close>: the array without the element at \<open>idx\<close>.\<close>

definition splice1 :: "nat \<Rightarrow> 'a list \<Rightarrow> 'a list" where
  "splice1 idx xs = take idx xs @ drop (Suc idx) xs"

text \<open>
  Truthiness of a number-or-null value: \<open>null\<close>, \<open>undefined\<close> and \<open>0\<close> are falsy. Truthiness
  of a string-or-undefined value: \<open>undefined\<close> and the empty string are falsy. In
  \<open>addToQueue\<close> the test \<open>!userId\<close> is written out as the two falsy cases.
\<close>

definition falsy :: "int option \<Rightarrow> bool" where
  "falsy v = (v = None \<or> v = Some 0)"

definition falsy_str :: "string option \<Rightarrow> bool" where
  "falsy_str v = (v = None \<or> v = Some [])"

text \<open>
  \<open>String.prototype.trim\<close> removes white space and line terminators at both ends. Among
  the code units below 256 these are tab, line feed, vertical tab, form feed, carriage
  return, space and the no-break space U+00A0.
\<close>

definition is_space :: "char \<Rightarrow> bool" where
  "is_space c =
     (c \<in> set [CHR 0x09, CHR 0x0A, CHR 0x0B, CHR 0x0C, CHR 0x0D, CHR 0x20, CHR 0xA0])"

definition trim :: "string \<Rightarrow> string" where
  "trim s = rev (dropWhile is_space (rev (dropWhile is_space s)))"

section \<open>Requests and responses\<close>

text \<open>
  The payload object of a POST body. Every field the handler reads may be absent
  (\<open>undefined\<close>). For \<open>writeAll\<close> the payload itself is taken as the new document:
  \<open>p_document\<close> is the payload read as a state document, and \<open>None\<close> when the payload
  is not one.
\<close>

record payload =
  p_name :: "string option"
  p_pref :: "string option"
  p_userId :: "int option"
  p_delta :: "int option"
  p_spotId :: "string option"
  p_document :: "state option"

datatype body = Text string | Document state | OkTrue

record response =
  statusCode :: nat
  contentType :: string
  r_body :: body

text \<open>\<open>bad(status, msg)\<close>, lines 6-8.\<close>

definition bad :: "nat \<Rightarrow> string \<Rightarrow> response" where
  "bad status msg =
     \<lparr>statusCode = (if status = 0 then 500 else status), contentType = ''text/plain'',
      r_body = Text msg\<rparr>"

section \<open>The actions (lines 86-140)\<close>

text \<open>
  Each branch of the action chain is a function from the document read from the store to
  either the response returned early (\<open>Inl\<close>) or the document handed to \<open>writeToRepo\<close>
  (\<open>Inr\<close>). \<open>now\<close> is the value of \<open>Date.now()\<close>. The chain as a whole, \<open>applyAction\<close>,
  hands over \<open>Some\<close> document, or \<open>None\<close> when \<open>writeAll\<close> hands over a payload that is
  not a state document.
\<close>

text \<open>\<open>v || d\<close> on a string-or-undefined value and on a number-or-undefined value.\<close>

definition str_or :: "string option \<Rightarrow> string \<Rightarrow> string" where
  "str_or v d = (case v of None \<Rightarrow> d | Some s \<Rightarrow> if s = [] then d else s)"

definition num_or :: "int option \<Rightarrow> int \<Rightarrow> int" where
  "num_or v d = (case v of None \<Rightarrow> d | Some n \<Rightarrow> if n = 0 then d else n)"

definition addUser :: "int \<Rightarrow> payload \<Rightarrow> state \<Rightarrow> response + state" where
  "addUser now payload json =
     (let name = trim (str_or (p_name payload) []);
          pref = str_or (p_pref payload) ''Both''
      in if name = [] then Inl (bad 400 ''Name required'')
         else Inr (json\<lparr>users := users json @ [\<lparr>u_id = now, u_name = name, u_pref = pref\<rparr>]\<rparr>))"

definition onCharger :: "state \<Rightarrow> int \<Rightarrow> bool" where
  "onCharger json userId = list_ex (\<lambda>s. s_userId s = Some userId) (spots json)"

definition inQueue :: "state \<Rightarrow> int \<Rightarrow> bool" where
  "inQueue json userId = list_ex (\<lambda>q. q_userId q = userId) (queue json)"

text \<open>\<open>Math.max(...xs)\<close> of a non-empty array.\<close>

definition math_max :: "int list \<Rightarrow> int" where
  "math_max xs = fold max (tl xs) (hd xs)"

definition addToQueue :: "int \<Rightarrow> payload \<Rightarrow> state \<Rightarrow> response + state" where
  "addToQueue now payload json =
     (case p_userId payload of
        None \<Rightarrow> Inl (bad 400 ''userId required'')
      | Some userId \<Rightarrow>
          if userId = 0 then Inl (bad 400 ''userId required'')
          else if \<not> onCharger json userId \<and> \<not> inQueue json userId then
            let nextPos =
                  (if queue json \<noteq> [] then math_max (map q_position (queue json)) else 0) + 1
            in Inr (json\<lparr>queue :=
                     queue json @ [\<lparr>q_id = now, q_userId = userId, q_position = nextPos\<rparr>]\<rparr>)
          else Inr json)"

definition removeFromQueue :: "payload \<Rightarrow> state \<Rightarrow> state" where
  "removeFromQueue payload json =
     json\<lparr>queue := filter (\<lambda>q. Some (q_userId q) \<noteq> p_userId payload) (queue json)\<rparr>"

text \<open>
  \<open>moveQueue\<close>: \<open>json.queue.sort(...)\<close> sorts the array of the document in place (stably, by
  ascending position) and returns that same array, so the document's queue is the sorted
  one whether or not the swap happens. \<open>A\<close> and \<open>B\<close> are the entries at \<open>idx\<close> and \<open>to\<close> (one
  and the same object when the two indices are equal); the three assignments
  \<open>t = A.position; A.position = B.position; B.position = t\<close> are made one after the other on
  the array.
\<close>

definition moveQueue :: "payload \<Rightarrow> state \<Rightarrow> state" where
  "moveQueue payload json =
     (let delta = num_or (p_delta payload) 0;
          q = sort_key q_position (queue json)
      in case findIndex (\<lambda>e. Some (q_userId e) = p_userId payload) q of
           None \<Rightarrow> json\<lparr>queue := q\<rparr>
         | Some idx \<Rightarrow>
             let to = int idx + delta in
             if 0 \<le> to \<and> to < int (length q) then
               let t = q_position (q ! idx);
                   q1 = q[idx := (q ! idx)\<lparr>q_position := q_position (q ! nat to)\<rparr>];
                   q2 = q1[nat to := (q1 ! nat to)\<lparr>q_position := t\<rparr>]
               in json\<lparr>queue := q2\<rparr>
             else json\<lparr>queue := q\<rparr>)"

text \<open>
  The backfill shared by \<open>endSession\<close> (lines 116-120) and \<open>fillSpots\<close> (lines 125-129):
  the predicate of \<open>findIndex\<close> looks the entry's user up in \<open>users\<close> (first match) and
  tests eligibility for the spot's type; the entry found is spliced out of the queue and
  its \<open>userId\<close> stored in the spot. The spot is addressed by its index in \<open>spots\<close>.
\<close>

definition matches :: "state \<Rightarrow> string \<Rightarrow> queue_entry \<Rightarrow> bool" where
  "matches json type q =
     (case find (\<lambda>x. u_id x = q_userId q) (users json) of
        None \<Rightarrow> False
      | Some u \<Rightarrow> eligible (u_pref u) type)"

definition backfill :: "nat \<Rightarrow> state \<Rightarrow> state" where
  "backfill i json =
     (case findIndex (matches json (s_type (spots json ! i))) (queue json) of
        None \<Rightarrow> json
      | Some idx \<Rightarrow>
          json\<lparr>queue := splice1 idx (queue json),
               spots := (spots json)[i := (spots json ! i)\<lparr>s_userId := Some (q_userId (queue json ! idx))\<rparr>]\<rparr>)"

definition endSession :: "payload \<Rightarrow> state \<Rightarrow> state" where
  "endSession payload json =
     (case findIndex (\<lambda>s. Some (s_id s) = p_spotId payload) (spots json) of
        None \<Rightarrow> json
      | Some i \<Rightarrow> backfill i (json\<lparr>spots := (spots json)[i := (spots json ! i)\<lparr>s_userId := None\<rparr>]\<rparr>))"

text \<open>
  \<open>fillSpots\<close>: the array of empty spots is computed once, before the loop; the loop then
  visits those spots in document order, each backfill seeing the queue the previous ones
  left.
\<close>

definition emptySpots :: "state \<Rightarrow> nat list" where
  "emptySpots json = filter (\<lambda>i. falsy (s_userId (spots json ! i))) [0..<length (spots json)]"

definition fillSpots :: "state \<Rightarrow> state" where
  "fillSpots json = fold backfill (emptySpots json) json"

definition clearQueue :: "state \<Rightarrow> state" where
  "clearQueue json = json\<lparr>queue := []\<rparr>"

definition writeAll :: "payload \<Rightarrow> state \<Rightarrow> state option" where
  "writeAll payload json = p_document payload"

definition applyAction ::
  "int \<Rightarrow> string option \<Rightarrow> payload \<Rightarrow> state \<Rightarrow> response + state option" where
  "applyAction now action payload json =
     (if action = Some ''addUser'' then map_sum id Some (addUser now payload json)
      else if action = Some ''addToQueue'' then map_sum id Some (addToQueue now payload json)
      else if action = Some ''removeFromQueue'' then Inr (Some (removeFromQueue payload json))
      else if action = Some ''moveQueue'' then Inr (Some (moveQueue payload json))
      else if action = Some ''endSession'' then Inr (Some (endSession payload json))
      else if action = Some ''fillSpots'' then Inr (Some (fillSpots json))
      else if action = Some ''clearQueue'' then Inr (Some (clearQueue json))
      else if action = Some ''writeAll'' then Inr (writeAll payload json)
      else Inl (bad 400 ''Unknown action''))"

section \<open>The repository store and the handler\<close>

text \<open>
  More JavaScript primitives: \<open>toUpperCase\<close>, the decimal digits of a status code in a
  template string, and \<open>Response.ok\<close>. \<open>toUpperCase\<close> is applied to the HTTP method only,
  and the result only compared with GET and POST. It is modelled on the ASCII letters
  and leaves every other code unit as it is; JavaScript maps some code units from 128
  on to other code units from 128 on or to SS, which makes no string equal to GET or
  POST, so every comparison comes out the same.
\<close>

definition toUpperCase :: "string \<Rightarrow> string" where
  "toUpperCase s =
     map (\<lambda>c. case map_of (zip ''abcdefghijklmnopqrstuvwxyz'' ''ABCDEFGHIJKLMNOPQRSTUVWXYZ'') c of
                None \<Rightarrow> c
              | Some C \<Rightarrow> C) s"

fun decimal :: "nat \<Rightarrow> string" where
  "decimal n =
     (if n < 10 then [''0123456789'' ! n]
      else decimal (n div 10) @ [''0123456789'' ! (n mod 10)])"

declare decimal.simps [simp del]

definition ok :: "nat \<Rightarrow> bool" where
  "ok status = (200 \<le> status \<and> status \<le> 299)"

text \<open>
  The store holds, per URL, a document and its version token (the \<open>sha\<close> of the GitHub
  Contents API). The content of an object is taken to be a JSON text that parses to a
  state document.
\<close>

type_synonym sha = string

type_synonym store = "string \<Rightarrow> (state \<times> sha) option"

record get_reply =
  g_status :: nat
  g_json :: "state option"
  g_sha :: "sha option"

record put_request =
  b_message :: string
  b_content :: state
  b_sha :: "sha option"

text \<open>
  Modelled from the spec: the external versioned store (section 4.3 of the specification;
  the GitHub service itself is not part of the repository). A read of a URL without
  object answers 404, otherwise 200 with the document and its version token.
\<close>

definition store_get :: "store \<Rightarrow> string \<Rightarrow> get_reply" where
  "store_get st url =
     (case st url of
        None \<Rightarrow> \<lparr>g_status = 404, g_json = None, g_sha = None\<rparr>
      | Some (doc, v) \<Rightarrow> \<lparr>g_status = 200, g_json = Some doc, g_sha = Some v\<rparr>)"

text \<open>
  Modelled from the spec: the conditional write of the external store (section 4.3: a
  write fails with Conflict if the store's current version no longer matches the supplied
  token). A request without token matches a URL without object. An accepted write
  stores the content under the version token \<open>newsha\<close> that the store assigns; a
  rejected one answers 409 and changes nothing.
\<close>

definition store_put :: "sha \<Rightarrow> store \<Rightarrow> string \<Rightarrow> put_request \<Rightarrow> nat \<times> store" where
  "store_put newsha st url b =
     (if map_option snd (st url) = b_sha b
      then (if st url = None then 201 else 200, st(url \<mapsto> (b_content b, newsha)))
      else (409, st))"

text \<open>The URL built in \<open>readFromRepo\<close> and \<open>writeToRepo\<close> (lines 11 and 23).\<close>

definition contents_url :: "string \<Rightarrow> string \<Rightarrow> string \<Rightarrow> string" where
  "contents_url owner repo path =
     ''https://api.github.com/repos/'' @ owner @ ''/'' @ repo @ ''/contents/'' @ path"

text \<open>
  \<open>readFromRepo\<close>, lines 10-20, on the reply of the store: a thrown \<open>Error\<close> is \<open>Inl\<close> of
  its message.
\<close>

definition readFromRepo :: "get_reply \<Rightarrow> string + (state option \<times> sha option)" where
  "readFromRepo r =
     (if g_status r = 404 then Inr (None, None)
      else if \<not> ok (g_status r) then Inl (''Repo read failed: '' @ decimal (g_status r))
      else Inr (g_json r, g_sha r))"

text \<open>
  \<open>writeToRepo\<close>, lines 22-35: the request carries the \<open>sha\<close> it was given if that is
  truthy (\<open>if (sha) body.sha = sha\<close>); a reply that is not ok throws.
\<close>

definition put_request_of :: "state \<Rightarrow> sha option \<Rightarrow> put_request" where
  "put_request_of json sha =
     \<lparr>b_message = ''EV state update'', b_content = json,
      b_sha = (if falsy_str sha then None else sha)\<rparr>"

definition writeToRepo ::
  "sha \<Rightarrow> store \<Rightarrow> string \<Rightarrow> state \<Rightarrow> sha option \<Rightarrow> (string + unit) \<times> store" where
  "writeToRepo newsha st url json sha =
     (case store_put newsha st url (put_request_of json sha) of
        (status, st') \<Rightarrow>
          if \<not> ok status then (Inl (''Repo write failed: '' @ decimal status), st')
          else (Inr (), st'))"

text \<open>
  The environment variables and the event. \<open>e_body\<close> is the request body: absent (or
  empty), a text that \<open>JSON.parse\<close> rejects with some message, or an object with its
  \<open>action\<close> and \<open>payload\<close> fields, each of which may be absent.
\<close>

record env =
  GH_TOKEN :: "string option"
  GH_OWNER :: "string option"
  GH_REPO :: "string option"
  GH_PATH :: "string option"
  INTERNAL_KEY :: "string option"

datatype raw_body = NoBody | Unparsable string | Parsed "string option" "payload option"

record event =
  httpMethod :: "string option"
  x_key :: "string option"
  X_Key :: "string option"
  e_body :: raw_body

text \<open>The payload \<open>{}\<close>: no field present, and not a state document.\<close>

definition emptyPayload :: payload where
  "emptyPayload =
     \<lparr>p_name = None, p_pref = None, p_userId = None, p_delta = None, p_spotId = None,
      p_document = None\<rparr>"

definition url :: "env \<Rightarrow> string" where
  "url env =
     contents_url (str_or (GH_OWNER env) []) (str_or (GH_REPO env) [])
       (str_or (GH_PATH env) ''state.json'')"

definition methodOf :: "event \<Rightarrow> string" where
  "methodOf event = toUpperCase (str_or (httpMethod event) ''GET'')"

definition headerKey :: "event \<Rightarrow> string option" where
  "headerKey event = (if falsy_str (x_key event) then X_Key event else x_key event)"

text \<open>Lines 82-84: \<open>action\<close> and \<open>payload\<close> of the body, or the message of the exception.\<close>

definition bodyOf :: "event \<Rightarrow> string + (string option \<times> payload)" where
  "bodyOf event =
     (case e_body event of
        NoBody \<Rightarrow> Inr (None, emptyPayload)
      | Unparsable msg \<Rightarrow> Inl msg
      | Parsed action payload \<Rightarrow>
          Inr (action, case payload of None \<Rightarrow> emptyPayload | Some p \<Rightarrow> p))"

text \<open>Line 70: \<open>if (!json) json = defaultState()\<close>.\<close>

definition docOf :: "state option \<Rightarrow> state" where
  "docOf json0 = (case json0 of None \<Rightarrow> defaultState | Some j \<Rightarrow> j)"

definition ok_document :: "state \<Rightarrow> response" where
  "ok_document json =
     \<lparr>statusCode = 200, contentType = ''application/json'', r_body = Document json\<rparr>"

definition ok_true :: response where
  "ok_true = \<lparr>statusCode = 200, contentType = ''application/json'', r_body = OkTrue\<rparr>"

text \<open>
  The handler, in the three stretches that its two \<open>await\<close>s delimit. \<open>precheck\<close> is lines
  55-66, before the read: the response returned early, if any. \<open>afterRead\<close> is lines 70-148
  together with the \<open>catch\<close>: it gets the outcome of \<open>readFromRepo\<close> and the store as it is
  when the write arrives, and returns the response and the store left behind. Its result
  is \<open>None\<close> in the one case the model does not follow: \<open>writeAll\<close> hands a payload that is
  not a state document to \<open>writeToRepo\<close>.
  \<open>handler\<close> is one invocation running alone: the store it writes to is the store it read.
\<close>

definition precheck :: "env \<Rightarrow> event \<Rightarrow> response option" where
  "precheck env event =
     (let key = str_or (INTERNAL_KEY env) [] in
      if falsy_str (GH_TOKEN env) \<or> falsy_str (GH_OWNER env) \<or> falsy_str (GH_REPO env)
      then Some (bad 400 ''Missing env configuration'')
      else if methodOf event = ''POST'' \<and> key \<noteq> [] \<and> headerKey event \<noteq> Some key
      then Some (bad 403 ''Forbidden'')
      else None)"

definition afterRead ::
  "env \<Rightarrow> int \<Rightarrow> sha \<Rightarrow> event \<Rightarrow> string + (state option \<times> sha option) \<Rightarrow> store \<Rightarrow>
   (response \<times> store) option" where
  "afterRead env now newsha event rd st =
     (case rd of
        Inl msg \<Rightarrow> Some (bad 500 (''Error: '' @ msg), st)
      | Inr (json0, sha) \<Rightarrow>
          let json = docOf json0 in
          if methodOf event = ''GET'' then Some (ok_document json, st)
          else if methodOf event \<noteq> ''POST'' then Some (bad 405 ''Method not allowed'', st)
          else
            case bodyOf event of
              Inl msg \<Rightarrow> Some (bad 500 (''Error: '' @ msg), st)
            | Inr (action, payload) \<Rightarrow>
                (case applyAction now action payload json of
                   Inl r \<Rightarrow> Some (r, st)
                 | Inr None \<Rightarrow> None
                 | Inr (Some json') \<Rightarrow>
                     (case writeToRepo newsha st (url env) json' sha of
                        (Inl msg, st') \<Rightarrow> Some (bad 500 (''Error: '' @ msg), st')
                      | (Inr _, st') \<Rightarrow> Some (ok_true, st'))))"

definition handler ::
  "env \<Rightarrow> int \<Rightarrow> sha \<Rightarrow> event \<Rightarrow> store \<Rightarrow> (response \<times> store) option" where
  "handler env now newsha event st =
     (case precheck env event of
        Some r \<Rightarrow> Some (r, st)
      | None \<Rightarrow> afterRead env now newsha event (readFromRepo (store_get st (url env))) st)"

section \<open>Notions used to state the properties\<close>

text \<open>
  Exchanging the \<open>position\<close> values of the entries at two indices of a queue, all
  other fields and the order of the entries kept.
\<close>

definition swap_positions :: "nat \<Rightarrow> nat \<Rightarrow> queue_entry list \<Rightarrow> queue_entry list" where
  "swap_positions i j q =
     q[i := (q ! i)\<lparr>q_position := q_position (q ! j)\<rparr>,
       j := (q ! j)\<lparr>q_position := q_position (q ! i)\<rparr>]"

text \<open>
  The "no double placement" invariant of the specification: no queue entry belongs to a
  user who is on a spot (\<open>isPlaced\<close> and \<open>isQueued\<close> of the specification are \<open>onCharger\<close>
  and \<open>inQueue\<close> of the source).
\<close>

definition noDoublePlacement :: "state \<Rightarrow> bool" where
  "noDoublePlacement json = list_all (\<lambda>q. \<not> onCharger json (q_userId q)) (queue json)"

text \<open>
  The invariant the actions maintain: no double placement, and at most one queue entry
  per userId.
\<close>

definition queueInvariant :: "state \<Rightarrow> bool" where
  "queueInvariant json = (noDoublePlacement json \<and> distinct (map q_userId (queue json)))"

text \<open>A queue entry is dangling when no user of the document has its \<open>userId\<close>.\<close>

definition dangling :: "state \<Rightarrow> queue_entry \<Rightarrow> bool" where
  "dangling json q = (\<not> list_ex (\<lambda>x. u_id x = q_userId q) (users json))"

text \<open>
  The \<open>entry\<close> of the source (\<open>json.queue.splice(idx, 1)[0]\<close>, lines 120 and 129): the
  queue entry that the backfill of spot \<open>i\<close> takes out of the queue, if any.
\<close>

definition chosen :: "nat \<Rightarrow> state \<Rightarrow> queue_entry option" where
  "chosen i json =
     map_option (\<lambda>idx. queue json ! idx)
       (findIndex (matches json (s_type (spots json ! i))) (queue json))"

text \<open>
  The assignments made by the loop of \<open>fillSpots\<close> over the spots \<open>is\<close>, in the order they
  are made: the index of the spot written and the entry whose \<open>userId\<close> is written, the
  document passing through \<open>backfill\<close> as in the loop.
\<close>

fun fill_log :: "nat list \<Rightarrow> state \<Rightarrow> (nat \<times> queue_entry) list" where
  "fill_log [] json = []"
| "fill_log (i # is) json =
     (case chosen i json of None \<Rightarrow> [] | Some e \<Rightarrow> [(i, e)]) @ fill_log is (backfill i json)"

section \<open>Concrete documents, requests and stores\<close>

definition entry :: "int \<Rightarrow> int \<Rightarrow> int \<Rightarrow> queue_entry" where
  "entry i u p = \<lparr>q_id = i, q_userId = u, q_position = p\<rparr>"

definition alice :: user where
  "alice = \<lparr>u_id = 1, u_name = ''Alice'', u_pref = ''Both''\<rparr>"

definition bob :: user where
  "bob = \<lparr>u_id = 2, u_name = ''Bob'', u_pref = ''Both''\<rparr>"

text \<open>The default document with the users Alice and Bob.\<close>

definition two_users :: state where
  "two_users = defaultState\<lparr>users := [alice, bob]\<rparr>"

text \<open>A document whose only queue entry belongs to userId 0.\<close>

definition zero_queued :: state where
  "zero_queued = defaultState\<lparr>queue := [entry 100 0 1]\<rparr>"

text \<open>Alice waits in the queue; then Alice on the first Tesla spot, the queue empty.\<close>

definition alice_queued :: state where
  "alice_queued = defaultState\<lparr>users := [alice], queue := [entry 100 1 1]\<rparr>"

definition alice_placed :: state where
  "alice_placed =
     alice_queued\<lparr>queue := [],
       spots := (spots defaultState)[0 := (spots defaultState ! 0)\<lparr>s_userId := Some 1\<rparr>]\<rparr>"

text \<open>
  Alice has two queue entries and is on no spot; then Alice on the first Tesla spot with
  her second entry still in the queue.
\<close>

definition alice_twice :: state where
  "alice_twice = defaultState\<lparr>users := [alice], queue := [entry 100 1 1, entry 101 1 2]\<rparr>"

definition alice_placed_and_queued :: state where
  "alice_placed_and_queued =
     alice_twice\<lparr>queue := [entry 101 1 2],
       spots := (spots defaultState)[0 := (spots defaultState ! 0)\<lparr>s_userId := Some 1\<rparr>]\<rparr>"

text \<open>Alice and Bob in the queue, in the order they joined.\<close>

definition both_queued :: state where
  "both_queued = defaultState\<lparr>users := [alice, bob], queue := [entry 100 1 1, entry 101 2 2]\<rparr>"

text \<open>
  The same queue after Bob was moved up: the document order is still Alice, Bob, the
  positions are 2 and 1. Then the document after \<open>endSession\<close> of the first Tesla spot.
\<close>

definition bob_moved_up :: state where
  "bob_moved_up = defaultState\<lparr>users := [alice, bob], queue := [entry 100 1 2, entry 101 2 1]\<rparr>"

definition alice_seated_before_bob :: state where
  "alice_seated_before_bob =
     bob_moved_up\<lparr>queue := [entry 101 2 1],
       spots := (spots defaultState)[0 := (spots defaultState ! 0)\<lparr>s_userId := Some 1\<rparr>]\<rparr>"

text \<open>A queue whose first entry belongs to userId 7, which no user has; Alice is behind it.\<close>

definition ghost_first :: state where
  "ghost_first = defaultState\<lparr>users := [alice], queue := [entry 99 7 0, entry 100 1 1]\<rparr>"

text \<open>
  A complete configuration without shared secret, a POST event with the given action and
  payload, and a store that holds one document under version \<open>v1\<close> at the configured URL.
\<close>

definition env0 :: env where
  "env0 = \<lparr>GH_TOKEN = Some ''t'', GH_OWNER = Some ''o'', GH_REPO = Some ''r'', GH_PATH = None,
     INTERNAL_KEY = None\<rparr>"

definition post :: "string \<Rightarrow> payload \<Rightarrow> event" where
  "post action payload =
     \<lparr>httpMethod = Some ''POST'', x_key = None, X_Key = None,
      e_body = Parsed (Some action) (Some payload)\<rparr>"

definition store_v1 :: "state \<Rightarrow> store" where
  "store_v1 json = [url env0 \<mapsto> (json, ''v1'')]"

section \<open>Facts about the list primitives\<close>

lemma findIndex_None_iff: "findIndex P xs = None \<longleftrightarrow> (\<forall>x\<in>set xs. \<not> P x)"
  by (induction xs) auto

lemma findIndex_SomeD:
  "findIndex P xs = Some i \<Longrightarrow> i < length xs \<and> P (xs ! i) \<and> (\<forall>j<i. \<not> P (xs ! j))"
proof (induction xs arbitrary: i)
  case Nil
  then show ?case by simp
next
  case (Cons x xs)
  show ?case
  proof (cases "P x")
    case True
    with Cons.prems show ?thesis by simp
  next
    case False
    with Cons.prems obtain k where k: "findIndex P xs = Some k" "i = Suc k"
      by auto
    from Cons.IH [OF k(1)] False k(2) show ?thesis
      by (auto simp: nth_Cons split: nat.splits)
  qed
qed

lemma mset_splice1:
  "i < length xs \<Longrightarrow> add_mset (xs ! i) (mset (splice1 i xs)) = mset xs"
proof -
  assume i: "i < length xs"
  have "xs = take i xs @ xs ! i # drop (Suc i) xs"
    using i by (rule id_take_nth_drop)
  then have "mset xs = mset (take i xs @ xs ! i # drop (Suc i) xs)"
    by simp
  then show ?thesis
    by (simp add: splice1_def)
qed

lemma set_splice1_subset: "set (splice1 i xs) \<subseteq> set xs"
  unfolding splice1_def using set_take_subset [of i xs] set_drop_subset [of "Suc i" xs]
  by auto

lemma map_splice1: "map f (splice1 i xs) = splice1 i (map f xs)"
  by (simp add: splice1_def take_map drop_map)

lemma distinct_splice1:
  assumes "distinct xs" "i < length xs"
  shows "distinct (splice1 i xs) \<and> xs ! i \<notin> set (splice1 i xs)"
proof -
  have "distinct (take i xs @ xs ! i # drop (Suc i) xs)"
    using assms id_take_nth_drop [of i xs] by simp
  then show ?thesis
    by (auto simp: splice1_def)
qed

lemma filter_splice1:
  "i < length xs \<Longrightarrow> \<not> P (xs ! i) \<Longrightarrow> filter P (splice1 i xs) = filter P xs"
proof -
  assume i: "i < length xs" and n: "\<not> P (xs ! i)"
  have "filter P xs = filter P (take i xs @ xs ! i # drop (Suc i) xs)"
    using id_take_nth_drop [OF i] by simp
  with n show ?thesis
    by (simp add: splice1_def)
qed

text \<open>The definitions unfolded to evaluate the actions on concrete documents.\<close>

lemmas eval_defs = endSession_def backfill_def matches_def eligible_def splice1_def
  defaultState_def alice_def bob_def entry_def emptyPayload_def onCharger_def inQueue_def
  noDoublePlacement_def

section \<open>addToQueue\<close>

text \<open>
  Claim C6, as amended. For every document and every userId other than 0 that is on a
  spot or in the queue, \<open>addToQueue\<close> succeeds and returns the document unchanged, so
  applying it twice gives the same document (and queue) as applying it once.
\<close>

theorem addToQueue_idempotent:
  assumes "p_userId payload = Some userId" and "userId \<noteq> 0"
    and "onCharger json userId \<or> inQueue json userId"
  shows "addToQueue now payload json = Inr json \<and>
    (case addToQueue now payload json of
       Inl r \<Rightarrow> Inl r
     | Inr json1 \<Rightarrow> addToQueue now' payload json1) = Inr json"
proof -
  have once: "addToQueue t payload json = Inr json" for t
    using assms by (auto simp: addToQueue_def)
  then show ?thesis by simp
qed

text \<open>The theorem at a document in which userId 1 is queued.\<close>

theorem addToQueue_idempotent_witness:
  "addToQueue 5 (emptyPayload\<lparr>p_userId := Some 1\<rparr>) alice_queued = Inr alice_queued \<and>
   (case addToQueue 5 (emptyPayload\<lparr>p_userId := Some 1\<rparr>) alice_queued of
      Inl r \<Rightarrow> Inl r
    | Inr json1 \<Rightarrow> addToQueue 6 (emptyPayload\<lparr>p_userId := Some 1\<rparr>) json1) = Inr alice_queued"
  using addToQueue_idempotent [of "emptyPayload\<lparr>p_userId := Some 1\<rparr>" 1 alice_queued 5 6]
  by (simp add: emptyPayload_def alice_queued_def inQueue_def onCharger_def entry_def
      addToQueue_def defaultState_def)

text \<open>A missing or falsy userId is rejected, whatever the document.\<close>

lemma addToQueue_falsy:
  "falsy (p_userId payload) \<Longrightarrow>
   addToQueue now payload json = Inl (bad 400 ''userId required'')"
  by (auto simp: addToQueue_def falsy_def)

text \<open>
  Claim C6 as stated fails for the falsy userId 0: with an entry of userId 0 in the queue,
  \<open>addToQueue\<close> does not succeed as a no-op but returns 400 "userId required".
\<close>

theorem addToQueue_zero_counterexample:
  "inQueue zero_queued 0 \<and>
   addToQueue 5 (emptyPayload\<lparr>p_userId := Some 0\<rparr>) zero_queued = Inl (bad 400 ''userId required'')"
  by (simp add: inQueue_def zero_queued_def entry_def addToQueue_def emptyPayload_def)

section \<open>moveQueue\<close>

lemma moveQueue_frame:
  "users (moveQueue payload json) = users json \<and> spots (moveQueue payload json) = spots json \<and>
   lastReset (moveQueue payload json) = lastReset json"
  by (simp add: moveQueue_def Let_def split: option.splits)

lemma moveQueue_queue:
  "queue (moveQueue payload json) = sort_key q_position (queue json) \<or>
   (\<exists>i j. i < length (queue json) \<and> j < length (queue json) \<and>
      queue (moveQueue payload json) = swap_positions i j (sort_key q_position (queue json)))"
proof -
  let ?q = "sort_key q_position (queue json)"
  show ?thesis
  proof (cases "findIndex (\<lambda>e. Some (q_userId e) = p_userId payload) ?q")
    case None
    then show ?thesis by (simp add: moveQueue_def)
  next
    case (Some idx)
    then have idx: "idx < length (queue json)"
      using findIndex_SomeD [of _ ?q idx] by simp
    let ?to = "int idx + num_or (p_delta payload) 0"
    show ?thesis
    proof (cases "0 \<le> ?to \<and> ?to < int (length ?q)")
      case False
      with Some have "queue (moveQueue payload json) = ?q"
        by (auto simp: moveQueue_def Let_def)
      then show ?thesis ..
    next
      case True
      then have to: "nat ?to < length (queue json)" by (simp add: nat_less_iff)
      have "queue (moveQueue payload json) = swap_positions idx (nat ?to) ?q"
        using Some True
        by (cases "nat ?to = idx") (simp_all add: moveQueue_def Let_def swap_positions_def)
      with idx to show ?thesis by blast
    qed
  qed
qed

lemma map_update_same: "f x = f (xs ! i) \<Longrightarrow> map f (xs[i := x]) = map f xs"
proof (induction xs arbitrary: i)
  case Nil
  then show ?case by simp
next
  case (Cons y ys)
  then show ?case by (cases i) auto
qed

lemma map_swap_positions:
  assumes "\<And>e p. f (e\<lparr>q_position := p\<rparr>) = f e"
  shows "map f (swap_positions i j q) = map f q"
proof -
  let ?a = "(q ! i)\<lparr>q_position := q_position (q ! j)\<rparr>"
  let ?b = "(q ! j)\<lparr>q_position := q_position (q ! i)\<rparr>"
  have 1: "map f (q[i := ?a]) = map f q"
    by (rule map_update_same) (simp add: assms)
  have "f ?b = f ((q[i := ?a]) ! j)"
  proof (cases "i < length q \<and> i = j")
    case True
    then show ?thesis by (simp add: assms)
  next
    case False
    then have "(q[i := ?a]) ! j = q ! j"
      by (cases "i < length q") (auto simp: list_update_beyond not_less)
    then show ?thesis by (simp add: assms)
  qed
  then have "map f ((q[i := ?a])[j := ?b]) = map f (q[i := ?a])"
    by (rule map_update_same)
  with 1 show ?thesis by (simp add: swap_positions_def)
qed

lemma positions_swap_positions:
  assumes "i < length q" "j < length q"
  shows "mset (map q_position (swap_positions i j q)) = mset (map q_position q)"
proof -
  define ps where "ps = map q_position q"
  have len: "i < length ps" "j < length ps"
    using assms by (simp_all add: ps_def)
  have "map q_position (swap_positions i j q) = ps[i := ps ! j, j := ps ! i]"
    using assms by (simp add: swap_positions_def map_update ps_def)
  moreover have "mset (ps[i := ps ! j, j := ps ! i]) = mset ps"
    using len by (simp add: mset_swap)
  ultimately show ?thesis by (simp only: ps_def)
qed

lemma identities_swap_positions:
  "map (\<lambda>e. (q_id e, q_userId e)) (swap_positions i j q) = map (\<lambda>e. (q_id e, q_userId e)) q"
  by (rule map_swap_positions) simp

lemma userIds_swap_positions: "map q_userId (swap_positions i j q) = map q_userId q"
  by (rule map_swap_positions) simp

lemma mset_identities_moveQueue:
  "mset (map (\<lambda>e. (q_id e, q_userId e)) (queue (moveQueue payload json))) =
   mset (map (\<lambda>e. (q_id e, q_userId e)) (queue json))"
proof -
  have s: "mset (map (\<lambda>e. (q_id e, q_userId e)) (sort_key q_position (queue json))) =
      mset (map (\<lambda>e. (q_id e, q_userId e)) (queue json))"
    by simp
  from moveQueue_queue [of payload json] show ?thesis
  proof (elim disjE exE conjE)
    assume "queue (moveQueue payload json) = sort_key q_position (queue json)"
    with s show ?thesis by (simp only:)
  next
    fix i j
    assume "queue (moveQueue payload json) = swap_positions i j (sort_key q_position (queue json))"
    with s show ?thesis by (simp only: identities_swap_positions)
  qed
qed

lemma mset_userIds_moveQueue:
  "mset (map q_userId (queue (moveQueue payload json))) = mset (map q_userId (queue json))"
proof -
  have s: "mset (map q_userId (sort_key q_position (queue json))) = mset (map q_userId (queue json))"
    by simp
  from moveQueue_queue [of payload json] show ?thesis
  proof (elim disjE exE conjE)
    assume "queue (moveQueue payload json) = sort_key q_position (queue json)"
    with s show ?thesis by (simp only:)
  next
    fix i j
    assume "queue (moveQueue payload json) = swap_positions i j (sort_key q_position (queue json))"
    with s show ?thesis by (simp only: userIds_swap_positions)
  qed
qed

lemma mset_positions_moveQueue:
  "mset (map q_position (queue (moveQueue payload json))) = mset (map q_position (queue json))"
proof -
  have s: "mset (map q_position (sort_key q_position (queue json))) =
      mset (map q_position (queue json))"
    by simp
  from moveQueue_queue [of payload json] show ?thesis
  proof (elim disjE exE conjE)
    assume "queue (moveQueue payload json) = sort_key q_position (queue json)"
    with s show ?thesis by (simp only:)
  next
    fix i j
    assume ij: "i < length (queue json)" "j < length (queue json)"
      and q: "queue (moveQueue payload json) = swap_positions i j (sort_key q_position (queue json))"
    from ij have "mset (map q_position (swap_positions i j (sort_key q_position (queue json)))) =
        mset (map q_position (sort_key q_position (queue json)))"
      by (intro positions_swap_positions) simp_all
    with s q show ?thesis by (simp only:)
  qed
qed

text \<open>
  Claim C7. \<open>moveQueue\<close> keeps the multiset of position values, the set of queued
  userIds, the entries' identities (the pairs of \<open>id\<close> and \<open>userId\<close>) and the number of
  entries; the queue it leaves is the queue sorted stably by ascending position, with at
  most the position values of two of its entries exchanged.
\<close>

theorem moveQueue_swaps_positions:
  "mset (map q_position (queue (moveQueue payload json))) = mset (map q_position (queue json)) \<and>
   set (map q_userId (queue (moveQueue payload json))) = set (map q_userId (queue json)) \<and>
   mset (map (\<lambda>e. (q_id e, q_userId e)) (queue (moveQueue payload json))) =
     mset (map (\<lambda>e. (q_id e, q_userId e)) (queue json)) \<and>
   length (queue (moveQueue payload json)) = length (queue json) \<and>
   (queue (moveQueue payload json) = sort_key q_position (queue json) \<or>
    (\<exists>i j. i < length (queue json) \<and> j < length (queue json) \<and>
       queue (moveQueue payload json) = swap_positions i j (sort_key q_position (queue json))))"
proof -
  have uids: "set (map q_userId (queue (moveQueue payload json))) = set (map q_userId (queue json))"
    using mset_userIds_moveQueue [of payload json] by (rule mset_eq_setD)
  have len: "length (queue (moveQueue payload json)) = length (queue json)"
    using mset_userIds_moveQueue [of payload json] by (metis length_map size_mset)
  from mset_positions_moveQueue [of payload json] uids
    mset_identities_moveQueue [of payload json] len moveQueue_queue [of payload json]
  show ?thesis by (intro conjI)
qed

lemma findIndex_sorted_None:
  "findIndex P (sort_key f xs) = None \<longleftrightarrow> (\<forall>x\<in>set xs. \<not> P x)"
  by (simp add: findIndex_None_iff)

text \<open>
  Claim C4, as amended. When the given userId has no queue entry, or the target index
  \<open>idx + delta\<close> lies outside the queue (\<open>idx\<close> the user's index in the queue sorted by
  ascending position), \<open>moveQueue\<close> changes nothing but the document order of the queue,
  which becomes the stable sort by ascending position; the document is entirely
  unchanged when its queue already was in ascending position order.
\<close>

theorem moveQueue_noop_sorts_only:
  assumes "(\<forall>e\<in>set (queue json). Some (q_userId e) \<noteq> p_userId payload) \<or>
    (\<exists>idx. findIndex (\<lambda>e. Some (q_userId e) = p_userId payload)
              (sort_key q_position (queue json)) = Some idx \<and>
           (int idx + num_or (p_delta payload) 0 < 0 \<or>
            int (length (queue json)) \<le> int idx + num_or (p_delta payload) 0))"
  shows "moveQueue payload json = json\<lparr>queue := sort_key q_position (queue json)\<rparr> \<and>
    (sorted (map q_position (queue json)) \<longrightarrow> moveQueue payload json = json)"
proof -
  let ?q = "sort_key q_position (queue json)"
  let ?P = "\<lambda>e. Some (q_userId e) = p_userId payload"
  have 1: "moveQueue payload json = json\<lparr>queue := ?q\<rparr>"
  proof (cases "findIndex ?P ?q")
    case None
    then show ?thesis by (simp add: moveQueue_def)
  next
    case (Some idx)
    then have "\<not> (\<forall>e\<in>set (queue json). \<not> ?P e)"
      using findIndex_sorted_None [of ?P q_position "queue json"] by simp
    with assms Some
    have "int idx + num_or (p_delta payload) 0 < 0 \<or>
        int (length (queue json)) \<le> int idx + num_or (p_delta payload) 0"
      by auto
    with Some show ?thesis by (auto simp: moveQueue_def Let_def)
  qed
  have "sorted (map q_position (queue json)) \<Longrightarrow> ?q = queue json"
    by (rule sort_key_id_if_sorted)
  with 1 show ?thesis by simp
qed

text \<open>
  The theorem at an unknown userId on a queue that is out of order, and at a target index
  beyond the end of a one-entry queue.
\<close>

theorem moveQueue_noop_sorts_only_witness:
  "moveQueue (emptyPayload\<lparr>p_userId := Some 99\<rparr>) bob_moved_up =
     bob_moved_up\<lparr>queue := [entry 101 2 1, entry 100 1 2]\<rparr> \<and>
   moveQueue (emptyPayload\<lparr>p_userId := Some 1, p_delta := Some 5\<rparr>) alice_queued = alice_queued"
  using moveQueue_noop_sorts_only [of bob_moved_up "emptyPayload\<lparr>p_userId := Some 99\<rparr>"]
    moveQueue_noop_sorts_only [of alice_queued "emptyPayload\<lparr>p_userId := Some 1, p_delta := Some 5\<rparr>"]
  by (simp add: bob_moved_up_def alice_queued_def emptyPayload_def entry_def num_or_def)

text \<open>
  Claim C4 as stated fails: for a userId without queue entry the document order of a
  queue that is not sorted by position changes. The document used is the one an earlier
  \<open>moveQueue\<close> leaves when it moves Bob up.
\<close>

theorem moveQueue_reorders_counterexample:
  "\<not> inQueue bob_moved_up 99 \<and>
   moveQueue (emptyPayload\<lparr>p_userId := Some 99\<rparr>) bob_moved_up \<noteq> bob_moved_up \<and>
   queue (moveQueue (emptyPayload\<lparr>p_userId := Some 99\<rparr>) bob_moved_up) = [entry 101 2 1, entry 100 1 2]"
  by (simp add: inQueue_def bob_moved_up_def moveQueue_def emptyPayload_def entry_def
      defaultState_def)

section \<open>The backfill step\<close>

lemma noDoublePlacement_iff:
  "noDoublePlacement json \<longleftrightarrow> (\<forall>u. \<not> (onCharger json u \<and> inQueue json u))"
  by (auto simp: noDoublePlacement_def onCharger_def inQueue_def list_all_iff list_ex_iff)

lemma onCharger_iff: "onCharger json u \<longleftrightarrow> Some u \<in> s_userId ` set (spots json)"
  by (force simp: onCharger_def list_ex_iff)

lemma matches_user:
  "matches json ty q \<Longrightarrow> \<exists>u\<in>set (users json). u_id u = q_userId q \<and> eligible (u_pref u) ty"
  by (auto simp: matches_def find_Some_iff split: option.splits)

lemma dangling_not_matches: "dangling json q \<Longrightarrow> \<not> matches json ty q"
  using matches_user [of json ty q] by (auto simp: dangling_def list_ex_iff)

lemma backfill_None: "chosen i json = None \<Longrightarrow> backfill i json = json"
  by (simp add: chosen_def backfill_def split: option.splits)

lemma backfill_Some:
  assumes "chosen i json = Some e"
  obtains idx where "idx < length (queue json)" and "queue json ! idx = e"
    and "matches json (s_type (spots json ! i)) e"
    and "\<forall>j<idx. \<not> matches json (s_type (spots json ! i)) (queue json ! j)"
    and "backfill i json =
      json\<lparr>queue := splice1 idx (queue json),
           spots := (spots json)[i := (spots json ! i)\<lparr>s_userId := Some (q_userId e)\<rparr>]\<rparr>"
proof -
  from assms obtain idx
    where f: "findIndex (matches json (s_type (spots json ! i))) (queue json) = Some idx"
      and e: "queue json ! idx = e"
    by (auto simp: chosen_def)
  from findIndex_SomeD [OF f] e
  have "idx < length (queue json)" "matches json (s_type (spots json ! i)) e"
    "\<forall>j<idx. \<not> matches json (s_type (spots json ! i)) (queue json ! j)"
    by auto
  moreover from f e have "backfill i json =
      json\<lparr>queue := splice1 idx (queue json),
           spots := (spots json)[i := (spots json ! i)\<lparr>s_userId := Some (q_userId e)\<rparr>]\<rparr>"
    by (simp add: backfill_def)
  ultimately show thesis using e that by blast
qed

lemma users_backfill: "users (backfill i json) = users json"
  by (simp add: backfill_def split: option.splits)

lemma length_spots_backfill: "length (spots (backfill i json)) = length (spots json)"
  by (simp add: backfill_def split: option.splits)

lemma spots_backfill_other: "j \<noteq> i \<Longrightarrow> spots (backfill i json) ! j = spots json ! j"
  by (simp add: backfill_def split: option.splits)

lemma spot_backfill_fields:
  "s_id (spots (backfill i json) ! j) = s_id (spots json ! j) \<and>
   s_type (spots (backfill i json) ! j) = s_type (spots json ! j) \<and>
   s_label (spots (backfill i json) ! j) = s_label (spots json ! j)"
proof (cases "j = i \<and> i < length (spots json)")
  case True
  then show ?thesis by (simp add: backfill_def split: option.splits)
next
  case False
  then have "spots (backfill i json) ! j = spots json ! j"
    by (cases "j = i") (simp_all add: backfill_def list_update_beyond not_less split: option.splits)
  then show ?thesis by simp
qed

lemma spot_backfill_chosen:
  "i < length (spots json) \<Longrightarrow> chosen i json = Some e \<Longrightarrow>
   s_userId (spots (backfill i json) ! i) = Some (q_userId e)"
  by (erule backfill_Some) simp

lemma mset_queue_backfill:
  "mset (queue json) =
   mset (case chosen i json of None \<Rightarrow> [] | Some e \<Rightarrow> [e]) + mset (queue (backfill i json))"
proof (cases "chosen i json")
  case None
  then show ?thesis by (simp add: backfill_None)
next
  case (Some e)
  then show ?thesis
    by (rule backfill_Some) (use Some mset_splice1 in force)
qed

lemma dangling_backfill:
  "filter (dangling json) (queue (backfill i json)) = filter (dangling json) (queue json)"
proof (cases "chosen i json")
  case None
  then show ?thesis by (simp add: backfill_None)
next
  case (Some e)
  then show ?thesis
  proof (rule backfill_Some)
    fix idx
    assume "idx < length (queue json)" "queue json ! idx = e"
      "matches json (s_type (spots json ! i)) e"
      and b: "backfill i json =
        json\<lparr>queue := splice1 idx (queue json),
             spots := (spots json)[i := (spots json ! i)\<lparr>s_userId := Some (q_userId e)\<rparr>]\<rparr>"
    then have "filter (dangling json) (splice1 idx (queue json)) = filter (dangling json) (queue json)"
      using dangling_not_matches by (intro filter_splice1) auto
    with b show ?thesis by simp
  qed
qed

section \<open>The invariant is preserved\<close>

lemma inv_cong:
  "queue json' = queue json \<Longrightarrow> spots json' = spots json \<Longrightarrow> queueInvariant json \<Longrightarrow> queueInvariant json'"
  by (simp add: queueInvariant_def noDoublePlacement_def onCharger_def)

lemma inv_backfill:
  assumes "queueInvariant json"
  shows "queueInvariant (backfill i json)"
proof (cases "chosen i json")
  case None
  with assms show ?thesis by (simp add: backfill_None)
next
  case (Some e)
  then show ?thesis
  proof (rule backfill_Some)
    fix idx
    assume idx: "idx < length (queue json)" and e: "queue json ! idx = e"
      and b: "backfill i json =
        json\<lparr>queue := splice1 idx (queue json),
             spots := (spots json)[i := (spots json ! i)\<lparr>s_userId := Some (q_userId e)\<rparr>]\<rparr>"
    let ?us = "map q_userId (queue json)"
    from assms have d: "distinct ?us" and n: "\<forall>q\<in>set (queue json). \<not> onCharger json (q_userId q)"
      by (simp_all add: queueInvariant_def noDoublePlacement_def list_all_iff)
    from idx have "distinct (splice1 idx ?us) \<and> ?us ! idx \<notin> set (splice1 idx ?us)"
      using d by (intro distinct_splice1) simp_all
    with idx e have d': "distinct (map q_userId (splice1 idx (queue json)))"
      and fresh: "q_userId e \<notin> q_userId ` set (splice1 idx (queue json))"
      by (auto simp: map_splice1 simp flip: set_map)
    have "\<not> onCharger (backfill i json) (q_userId q)" if q: "q \<in> set (splice1 idx (queue json))" for q
    proof
      assume "onCharger (backfill i json) (q_userId q)"
      then have "Some (q_userId q) \<in> s_userId `
          set ((spots json)[i := (spots json ! i)\<lparr>s_userId := Some (q_userId e)\<rparr>])"
        by (simp add: onCharger_iff b)
      then have "Some (q_userId q) \<in> s_userId `
          insert ((spots json ! i)\<lparr>s_userId := Some (q_userId e)\<rparr>) (set (spots json))"
        using set_update_subset_insert by fast
      then have "q_userId q = q_userId e \<or> onCharger json (q_userId q)"
        by (auto simp: onCharger_iff)
      moreover from q fresh have "q_userId q \<noteq> q_userId e" by (metis imageI)
      moreover from q n set_splice1_subset [of idx "queue json"]
      have "\<not> onCharger json (q_userId q)" by auto
      ultimately show False by simp
    qed
    with d' show ?thesis
      by (simp add: queueInvariant_def noDoublePlacement_def list_all_iff b)
  qed
qed

lemma inv_fold_backfill: "queueInvariant json \<Longrightarrow> queueInvariant (fold backfill is json)"
  by (induction "is" arbitrary: json) (simp_all add: inv_backfill)

lemma inv_fillSpots: "queueInvariant json \<Longrightarrow> queueInvariant (fillSpots json)"
  by (simp add: fillSpots_def inv_fold_backfill)

lemma inv_vacate:
  assumes "queueInvariant json"
  shows "queueInvariant (json\<lparr>spots := (spots json)[i := (spots json ! i)\<lparr>s_userId := None\<rparr>]\<rparr>)"
proof -
  have "onCharger json u"
    if "onCharger (json\<lparr>spots := (spots json)[i := (spots json ! i)\<lparr>s_userId := None\<rparr>]\<rparr>) u" for u
  proof -
    from that have "Some u \<in> s_userId ` set ((spots json)[i := (spots json ! i)\<lparr>s_userId := None\<rparr>])"
      by (simp add: onCharger_iff)
    then have "Some u \<in> s_userId ` insert ((spots json ! i)\<lparr>s_userId := None\<rparr>) (set (spots json))"
      using set_update_subset_insert by fast
    then show ?thesis by (auto simp: onCharger_iff)
  qed
  with assms show ?thesis
    by (auto simp: queueInvariant_def noDoublePlacement_def list_all_iff)
qed

lemma inv_endSession: "queueInvariant json \<Longrightarrow> queueInvariant (endSession payload json)"
  by (simp add: endSession_def inv_backfill inv_vacate split: option.splits)

lemma inv_clearQueue: "queueInvariant (clearQueue json)"
  by (simp add: queueInvariant_def noDoublePlacement_def clearQueue_def)

lemma inv_removeFromQueue:
  assumes "queueInvariant json"
  shows "queueInvariant (removeFromQueue payload json)"
proof -
  let ?P = "\<lambda>q. Some (q_userId q) \<noteq> p_userId payload"
  from assms have "distinct (map q_userId (filter ?P (queue json)))"
    by (simp add: queueInvariant_def distinct_map_filter)
  moreover from assms have "\<forall>q\<in>set (filter ?P (queue json)). \<not> onCharger json (q_userId q)"
    by (simp add: queueInvariant_def noDoublePlacement_def list_all_iff)
  moreover have "onCharger (removeFromQueue payload json) u = onCharger json u" for u
    by (simp add: onCharger_def removeFromQueue_def)
  ultimately show ?thesis
    by (simp add: queueInvariant_def noDoublePlacement_def list_all_iff removeFromQueue_def)
qed

lemma inv_moveQueue:
  assumes "queueInvariant json"
  shows "queueInvariant (moveQueue payload json)"
proof -
  let ?q' = "queue (moveQueue payload json)"
  have m: "mset (map q_userId ?q') = mset (map q_userId (queue json))"
    by (rule mset_userIds_moveQueue)
  then have "set (map q_userId ?q') = set (map q_userId (queue json))"
    by (rule mset_eq_setD)
  then have s: "q_userId ` set ?q' = q_userId ` set (queue json)"
    by simp
  from m have "distinct (map q_userId ?q') = distinct (map q_userId (queue json))"
    by (rule mset_eq_imp_distinct_iff)
  with assms have d: "distinct (map q_userId ?q')"
    by (simp add: queueInvariant_def)
  have o: "onCharger (moveQueue payload json) u = onCharger json u" for u
    by (simp add: onCharger_def moveQueue_frame)
  have "\<not> onCharger json (q_userId q)" if "q \<in> set ?q'" for q
  proof -
    from that have "q_userId q \<in> q_userId ` set ?q'" by (rule imageI)
    with s obtain q0 where "q0 \<in> set (queue json)" "q_userId q0 = q_userId q"
      by auto
    with assms show ?thesis
      by (auto simp: queueInvariant_def noDoublePlacement_def list_all_iff)
  qed
  with d o show ?thesis
    by (simp add: queueInvariant_def noDoublePlacement_def list_all_iff)
qed

lemma addUser_frame:
  assumes "addUser now payload json = Inr json'"
  shows "queue json' = queue json \<and> spots json' = spots json \<and> lastReset json' = lastReset json"
proof (cases "trim (str_or (p_name payload) []) = []")
  case True
  then have "addUser now payload json = Inl (bad 400 ''Name required'')"
    by (simp add: addUser_def Let_def)
  with assms show ?thesis by simp
next
  case False
  then have "addUser now payload json =
      Inr (json\<lparr>users := users json @
        [\<lparr>u_id = now, u_name = trim (str_or (p_name payload) []),
          u_pref = str_or (p_pref payload) ''Both''\<rparr>]\<rparr>)"
    by (simp add: addUser_def Let_def)
  with assms have "json' = json\<lparr>users := users json @
        [\<lparr>u_id = now, u_name = trim (str_or (p_name payload) []),
          u_pref = str_or (p_pref payload) ''Both''\<rparr>]\<rparr>"
    by simp
  then show ?thesis by simp
qed

lemma inv_addUser:
  assumes "queueInvariant json" and "addUser now payload json = Inr json'"
  shows "queueInvariant json'"
  using addUser_frame [OF assms(2)] assms(1) by (intro inv_cong [of json' json]) simp_all

lemma inv_addToQueue:
  assumes "queueInvariant json" and "addToQueue now payload json = Inr json'"
  shows "queueInvariant json'"
proof (cases "p_userId payload")
  case None
  with assms(2) show ?thesis by (simp add: addToQueue_def)
next
  case (Some userId)
  show ?thesis
  proof (cases "userId \<noteq> 0 \<and> \<not> onCharger json userId \<and> \<not> inQueue json userId")
    case False
    with Some assms(2) have "json' = json"
      by (auto simp: addToQueue_def split: if_splits)
    with assms(1) show ?thesis by simp
  next
    case True
    with Some assms(2) obtain p where j: "json' =
        json\<lparr>queue := queue json @ [\<lparr>q_id = now, q_userId = userId, q_position = p\<rparr>]\<rparr>"
      by (auto simp: addToQueue_def Let_def)
    from True have "userId \<notin> q_userId ` set (queue json)"
      by (auto simp: inQueue_def list_ex_iff)
    with assms(1) True show ?thesis
      by (simp add: j queueInvariant_def noDoublePlacement_def onCharger_def)
  qed
qed

lemma applyAction_simps:
  "applyAction now (Some ''addUser'') payload json = map_sum id Some (addUser now payload json)"
  "applyAction now (Some ''addToQueue'') payload json =
     map_sum id Some (addToQueue now payload json)"
  "applyAction now (Some ''removeFromQueue'') payload json =
     Inr (Some (removeFromQueue payload json))"
  "applyAction now (Some ''moveQueue'') payload json = Inr (Some (moveQueue payload json))"
  "applyAction now (Some ''endSession'') payload json = Inr (Some (endSession payload json))"
  "applyAction now (Some ''fillSpots'') payload json = Inr (Some (fillSpots json))"
  "applyAction now (Some ''clearQueue'') payload json = Inr (Some (clearQueue json))"
  "applyAction now (Some ''writeAll'') payload json = Inr (writeAll payload json)"
  by (simp_all add: applyAction_def)

lemma inv_applyAction:
  assumes "queueInvariant json"
    and "action \<in> {''addUser'', ''addToQueue'', ''removeFromQueue'', ''moveQueue'',
           ''endSession'', ''fillSpots'', ''clearQueue''}"
    and "applyAction now (Some action) payload json = Inr (Some json')"
  shows "queueInvariant json'"
proof -
  from assms(2) have "action = ''addUser'' \<or> action = ''addToQueue'' \<or>
      action = ''removeFromQueue'' \<or> action = ''moveQueue'' \<or> action = ''endSession'' \<or>
      action = ''fillSpots'' \<or> action = ''clearQueue''"
    by (simp only: insert_iff empty_iff simp_thms)
  then show ?thesis
  proof (elim disjE)
    assume "action = ''addUser''"
    with assms(3) have "map_sum id Some (addUser now payload json) = Inr (Some json')"
      by (simp only: applyAction_simps)
    then have "addUser now payload json = Inr json'"
      by (cases "addUser now payload json") simp_all
    with assms(1) show ?thesis by (rule inv_addUser)
  next
    assume "action = ''addToQueue''"
    with assms(3) have "map_sum id Some (addToQueue now payload json) = Inr (Some json')"
      by (simp only: applyAction_simps)
    then have "addToQueue now payload json = Inr json'"
      by (cases "addToQueue now payload json") simp_all
    with assms(1) show ?thesis by (rule inv_addToQueue)
  next
    assume "action = ''removeFromQueue''"
    with assms(3) have "Inr (Some (removeFromQueue payload json)) = (Inr (Some json') :: response + state option)"
      by (simp only: applyAction_simps)
    with assms(1) show ?thesis using inv_removeFromQueue [of json payload] by simp
  next
    assume "action = ''moveQueue''"
    with assms(3) have "Inr (Some (moveQueue payload json)) = (Inr (Some json') :: response + state option)"
      by (simp only: applyAction_simps)
    with assms(1) show ?thesis using inv_moveQueue [of json payload] by simp
  next
    assume "action = ''endSession''"
    with assms(3) have "Inr (Some (endSession payload json)) = (Inr (Some json') :: response + state option)"
      by (simp only: applyAction_simps)
    with assms(1) show ?thesis using inv_endSession [of json payload] by simp
  next
    assume "action = ''fillSpots''"
    with assms(3) have "Inr (Some (fillSpots json)) = (Inr (Some json') :: response + state option)"
      by (simp only: applyAction_simps)
    with assms(1) show ?thesis using inv_fillSpots [of json] by simp
  next
    assume "action = ''clearQueue''"
    with assms(3) have "Inr (Some (clearQueue json)) = (Inr (Some json') :: response + state option)"
      by (simp only: applyAction_simps)
    then show ?thesis using inv_clearQueue [of json] by simp
  qed
qed

text \<open>
  Claim C1, as amended. From every document in which no user both occupies a spot and
  has a queue entry and in which no userId has two queue entries, every action other
  than \<open>writeAll\<close> that returns a document returns one in which again no user both
  occupies a spot and has a queue entry (and no userId has two queue entries).
\<close>

theorem no_double_placement_preserved:
  assumes "\<forall>u. \<not> (onCharger json u \<and> inQueue json u)"
    and "distinct (map q_userId (queue json))"
    and "action \<in> {''addUser'', ''addToQueue'', ''removeFromQueue'', ''moveQueue'',
           ''endSession'', ''fillSpots'', ''clearQueue''}"
    and "applyAction now (Some action) payload json = Inr (Some json')"
  shows "(\<forall>u. \<not> (onCharger json' u \<and> inQueue json' u)) \<and> distinct (map q_userId (queue json'))"
proof -
  from assms(1,2) have "queueInvariant json"
    by (simp add: queueInvariant_def noDoublePlacement_iff)
  then have "queueInvariant json'" using assms(3,4) by (rule inv_applyAction)
  then show ?thesis by (simp add: queueInvariant_def noDoublePlacement_iff)
qed

text \<open>The theorem at \<open>endSession\<close> on a document in which Alice is queued once.\<close>

theorem no_double_placement_preserved_witness:
  "(\<forall>u. \<not> (onCharger alice_queued u \<and> inQueue alice_queued u)) \<and>
   distinct (map q_userId (queue alice_queued)) \<and>
   applyAction 0 (Some ''endSession'') (emptyPayload\<lparr>p_spotId := Some ''tesla-1''\<rparr>) alice_queued =
     Inr (Some alice_placed) \<and>
   (\<forall>u. \<not> (onCharger alice_placed u \<and> inQueue alice_placed u)) \<and>
   distinct (map q_userId (queue alice_placed))"
proof -
  have "noDoublePlacement alice_queued"
    by (simp add: alice_queued_def eval_defs)
  then have 1: "\<forall>u. \<not> (onCharger alice_queued u \<and> inQueue alice_queued u)"
    by (rule iffD1 [OF noDoublePlacement_iff])
  have 2: "distinct (map q_userId (queue alice_queued))"
    by (simp add: alice_queued_def)
  have 3: "''endSession'' \<in> {''addUser'', ''addToQueue'', ''removeFromQueue'', ''moveQueue'',
      ''endSession'', ''fillSpots'', ''clearQueue''}"
    by simp
  have 4: "applyAction 0 (Some ''endSession'') (emptyPayload\<lparr>p_spotId := Some ''tesla-1''\<rparr>)
      alice_queued = Inr (Some alice_placed)"
    by (simp add: applyAction_simps alice_queued_def alice_placed_def eval_defs)
  from no_double_placement_preserved [OF 1 2 3 4] 1 2 4 show ?thesis
    by (intro conjI) simp_all
qed

text \<open>
  Claim C1 as stated fails when a userId has two queue entries: \<open>endSession\<close> places
  Alice and removes one of her entries only, so she is on a spot and in the queue.
\<close>

theorem endSession_double_placement_counterexample:
  "(\<forall>u. \<not> (onCharger alice_twice u \<and> inQueue alice_twice u)) \<and>
   applyAction 0 (Some ''endSession'') (emptyPayload\<lparr>p_spotId := Some ''tesla-1''\<rparr>) alice_twice =
     Inr (Some alice_placed_and_queued) \<and>
   onCharger alice_placed_and_queued 1 \<and> inQueue alice_placed_and_queued 1"
proof -
  have "noDoublePlacement alice_twice"
    by (simp add: alice_twice_def eval_defs)
  then have "\<forall>u. \<not> (onCharger alice_twice u \<and> inQueue alice_twice u)"
    by (rule iffD1 [OF noDoublePlacement_iff])
  moreover have "applyAction 0 (Some ''endSession'') (emptyPayload\<lparr>p_spotId := Some ''tesla-1''\<rparr>)
      alice_twice = Inr (Some alice_placed_and_queued) \<and>
    onCharger alice_placed_and_queued 1 \<and> inQueue alice_placed_and_queued 1"
    by (simp add: applyAction_simps alice_twice_def alice_placed_and_queued_def eval_defs)
  ultimately show ?thesis by simp
qed

section \<open>The loop of fillSpots\<close>

lemma dangling_fold_backfill:
  "filter (dangling json) (queue (fold backfill is json)) = filter (dangling json) (queue json)"
proof (induction "is" arbitrary: json)
  case Nil
  show ?case by simp
next
  case (Cons i "is")
  have "dangling (backfill i json) = dangling json"
    by (rule ext) (simp add: dangling_def users_backfill)
  with Cons [of "backfill i json"] show ?case
    by (simp add: dangling_backfill)
qed

lemma fill_log_spots: "fst ` set (fill_log is json) \<subseteq> set is"
  by (induction "is" arbitrary: json) (auto split: option.splits)

lemma distinct_fill_log_spots: "distinct is \<Longrightarrow> distinct (map fst (fill_log is json))"
proof (induction "is" arbitrary: json)
  case Nil
  show ?case by simp
next
  case (Cons i "is")
  from Cons.prems have "i \<notin> fst ` set (fill_log is (backfill i json))"
    using fill_log_spots [of "is" "backfill i json"] by auto
  with Cons show ?case
    by (auto split: option.splits)
qed

lemma mset_fill_log:
  "mset (queue json) = mset (map snd (fill_log is json)) + mset (queue (fold backfill is json))"
proof (induction "is" arbitrary: json)
  case Nil
  show ?case by simp
next
  case (Cons i "is")
  have "mset (queue json) =
      mset (case chosen i json of None \<Rightarrow> [] | Some e \<Rightarrow> [e]) + mset (queue (backfill i json))"
    by (rule mset_queue_backfill)
  also have "mset (queue (backfill i json)) =
      mset (map snd (fill_log is (backfill i json))) + mset (queue (fold backfill is (backfill i json)))"
    by (rule Cons.IH)
  finally show ?case
    by (simp split: option.splits)
qed

lemma distinct_fill_log_users:
  assumes "distinct (map q_userId (queue json))"
  shows "distinct (map (q_userId \<circ> snd) (fill_log is json))"
proof -
  let ?taken = "map q_userId (map snd (fill_log is json))"
  let ?left = "map q_userId (queue (fold backfill is json))"
  have "mset (queue json) = mset (map snd (fill_log is json) @ queue (fold backfill is json))"
    using mset_fill_log [of json "is"] by simp
  then have "mset (map q_userId (queue json)) =
      mset (map q_userId (map snd (fill_log is json) @ queue (fold backfill is json)))"
    by (simp only: mset_map)
  then have "mset (map q_userId (queue json)) = mset (?taken @ ?left)"
    by (simp only: map_append)
  then have "distinct (map q_userId (queue json)) = distinct (?taken @ ?left)"
    by (rule mset_eq_imp_distinct_iff)
  with assms have "distinct ?taken" by simp
  then show ?thesis by simp
qed

lemma unlogged_spot_unchanged:
  "i \<notin> fst ` set (fill_log is json) \<Longrightarrow> spots (fold backfill is json) ! i = spots json ! i"
proof (induction "is" arbitrary: json)
  case Nil
  show ?case by simp
next
  case (Cons i0 "is")
  from Cons.prems have rest: "i \<notin> fst ` set (fill_log is (backfill i0 json))"
    by auto
  have "spots (backfill i0 json) ! i = spots json ! i"
  proof (cases "chosen i0 json")
    case None
    then show ?thesis by (simp add: backfill_None)
  next
    case (Some e)
    with Cons.prems have "i \<noteq> i0" by auto
    then show ?thesis by (rule spots_backfill_other)
  qed
  with Cons.IH [OF rest] show ?case by simp
qed

lemma logged_spot_written:
  assumes "distinct is" and "(i, e) \<in> set (fill_log is json)" and "i < length (spots json)"
  shows "s_userId (spots (fold backfill is json) ! i) = Some (q_userId e)"
  using assms
proof (induction "is" arbitrary: json)
  case Nil
  then show ?case by simp
next
  case (Cons i0 "is")
  from Cons.prems(2) consider
    (head) "i = i0" "chosen i0 json = Some e"
    | (tail) "(i, e) \<in> set (fill_log is (backfill i0 json))"
    by (auto split: option.splits)
  then show ?case
  proof cases
    case head
    from Cons.prems(1) head(1) have "i \<notin> fst ` set (fill_log is (backfill i0 json))"
      using fill_log_spots [of "is" "backfill i0 json"] by auto
    then have "spots (fold backfill is (backfill i0 json)) ! i = spots (backfill i0 json) ! i"
      by (rule unlogged_spot_unchanged)
    moreover from Cons.prems(3) head
    have "s_userId (spots (backfill i0 json) ! i) = Some (q_userId e)"
      by (simp add: spot_backfill_chosen)
    ultimately show ?thesis by simp
  next
    case tail
    from Cons.prems have "distinct is" "i < length (spots (backfill i0 json))"
      by (simp_all add: length_spots_backfill)
    from Cons.IH [OF this(1) tail this(2)] show ?thesis by simp
  qed
qed

lemma logged_entry_matches:
  "(i, e) \<in> set (fill_log is json) \<Longrightarrow>
   e \<in> set (queue json) \<and> matches json (s_type (spots json ! i)) e"
proof (induction "is" arbitrary: json)
  case Nil
  then show ?case by simp
next
  case (Cons i0 "is")
  from Cons.prems consider
    (head) "i = i0" "chosen i0 json = Some e"
    | (tail) "(i, e) \<in> set (fill_log is (backfill i0 json))"
    by (auto split: option.splits)
  then show ?case
  proof cases
    case head
    from head(2) show ?thesis
      by (rule backfill_Some) (use head(1) in auto)
  next
    case tail
    from Cons.IH [OF tail]
    have "e \<in> set (queue (backfill i0 json))"
      and "matches (backfill i0 json) (s_type (spots (backfill i0 json) ! i)) e"
      by simp_all
    moreover have "set (queue (backfill i0 json)) \<subseteq> set (queue json)"
      using mset_queue_backfill [of json i0]
      by (metis mset_subset_eq_add_right set_mset_mono set_mset_mset)
    moreover have "matches (backfill i0 json) = matches json"
      by (intro ext) (simp add: matches_def users_backfill)
    ultimately show ?thesis
      by (auto simp: spot_backfill_fields)
  qed
qed

lemma emptySpots_distinct: "distinct (emptySpots json)"
  by (simp add: emptySpots_def)

lemma emptySpots_bound: "i \<in> set (emptySpots json) \<Longrightarrow> i < length (spots json)"
  by (simp add: emptySpots_def)

text \<open>
  Claim C5, as amended. For every document whose queue holds at most one entry per
  userId, one call of \<open>fillSpots\<close> writes no userId into two spots: the userIds of the
  entries it assigns are pairwise different, each spot is written at most once and only
  if it was empty, a written spot holds the userId of its entry at the end, every other
  spot is unchanged, and the assigned entries are exactly those taken from the queue.
\<close>

theorem fillSpots_assigns_once:
  assumes "distinct (map q_userId (queue json))"
  shows "distinct (map (q_userId \<circ> snd) (fill_log (emptySpots json) json)) \<and>
    distinct (map fst (fill_log (emptySpots json) json)) \<and>
    (\<forall>(i, e)\<in>set (fill_log (emptySpots json) json).
       i \<in> set (emptySpots json) \<and> s_userId (spots (fillSpots json) ! i) = Some (q_userId e)) \<and>
    (\<forall>i. i \<notin> fst ` set (fill_log (emptySpots json) json) \<longrightarrow>
       spots (fillSpots json) ! i = spots json ! i) \<and>
    mset (queue json) =
      mset (map snd (fill_log (emptySpots json) json)) + mset (queue (fillSpots json))"
proof -
  let ?log = "fill_log (emptySpots json) json"
  have 1: "distinct (map (q_userId \<circ> snd) ?log)"
    using assms by (rule distinct_fill_log_users)
  have 2: "distinct (map fst ?log)"
    using emptySpots_distinct by (rule distinct_fill_log_spots)
  have 3: "i \<in> set (emptySpots json) \<and> s_userId (spots (fillSpots json) ! i) = Some (q_userId e)"
    if l: "(i, e) \<in> set ?log" for i e
  proof -
    from l have i: "i \<in> set (emptySpots json)"
      using fill_log_spots [of "emptySpots json" json] by force
    then have "i < length (spots json)" by (rule emptySpots_bound)
    with emptySpots_distinct l
    have "s_userId (spots (fold backfill (emptySpots json) json) ! i) = Some (q_userId e)"
      by (rule logged_spot_written)
    with i show ?thesis by (simp add: fillSpots_def)
  qed
  have 4: "spots (fillSpots json) ! i = spots json ! i" if "i \<notin> fst ` set ?log" for i
    using that by (simp add: fillSpots_def unlogged_spot_unchanged)
  have 5: "mset (queue json) = mset (map snd ?log) + mset (queue (fillSpots json))"
    unfolding fillSpots_def by (rule mset_fill_log)
  from 1 2 3 4 5 show ?thesis by blast
qed

text \<open>Further definitions unfolded to evaluate \<open>fillSpots\<close>.\<close>

lemmas fill_defs = fillSpots_def emptySpots_def falsy_def chosen_def upt_rec

text \<open>The theorem at a document with Alice and Bob in the queue.\<close>

theorem fillSpots_assigns_once_witness:
  "distinct (map q_userId (queue both_queued)) \<and>
   fill_log (emptySpots both_queued) both_queued = [(0, entry 100 1 1), (1, entry 101 2 2)] \<and>
   distinct (map (q_userId \<circ> snd) (fill_log (emptySpots both_queued) both_queued)) \<and>
   s_userId (spots (fillSpots both_queued) ! 0) = Some 1 \<and>
   s_userId (spots (fillSpots both_queued) ! 1) = Some 2 \<and>
   queue (fillSpots both_queued) = []"
  using fillSpots_assigns_once [of both_queued]
  by (simp add: both_queued_def fill_defs eval_defs)

text \<open>
  Claim C5 as stated fails when a userId has two queue entries: one call of \<open>fillSpots\<close>
  writes Alice's userId into both Tesla spots.
\<close>

theorem fillSpots_same_user_counterexample:
  "fill_log (emptySpots alice_twice) alice_twice = [(0, entry 100 1 1), (1, entry 101 1 2)] \<and>
   s_userId (spots (fillSpots alice_twice) ! 0) = Some 1 \<and>
   s_userId (spots (fillSpots alice_twice) ! 1) = Some 1 \<and>
   queue (fillSpots alice_twice) = []"
  by (simp add: alice_twice_def fill_defs eval_defs)

section \<open>endSession\<close>

lemma endSession_found:
  assumes "findIndex (\<lambda>s. Some (s_id s) = p_spotId payload) (spots json) = Some i"
  shows "i < length (spots json) \<and> Some (s_id (spots json ! i)) = p_spotId payload \<and>
    endSession payload json =
      backfill i (json\<lparr>spots := (spots json)[i := (spots json ! i)\<lparr>s_userId := None\<rparr>]\<rparr>)"
  using findIndex_SomeD [OF assms] assms by (simp add: endSession_def)

lemma endSession_not_found:
  "findIndex (\<lambda>s. Some (s_id s) = p_spotId payload) (spots json) = None \<Longrightarrow>
   endSession payload json = json"
  by (simp add: endSession_def)

text \<open>
  What \<open>endSession\<close> does to the spot it finds: the spot is left empty and the queue
  unchanged when no entry is eligible, and otherwise the first eligible entry in
  document order is taken out of the queue and its userId stored in the spot.
\<close>

lemma endSession_document_order:
  assumes "findIndex (\<lambda>s. Some (s_id s) = p_spotId payload) (spots json) = Some i"
  shows "((\<forall>e\<in>set (queue json). \<not> matches json (s_type (spots json ! i)) e) \<and>
      queue (endSession payload json) = queue json \<and>
      s_userId (spots (endSession payload json) ! i) = None) \<or>
    (\<exists>idx<length (queue json).
      matches json (s_type (spots json ! i)) (queue json ! idx) \<and>
      (\<forall>j<idx. \<not> matches json (s_type (spots json ! i)) (queue json ! j)) \<and>
      queue (endSession payload json) = splice1 idx (queue json) \<and>
      s_userId (spots (endSession payload json) ! i) = Some (q_userId (queue json ! idx)))"
proof -
  let ?json1 = "json\<lparr>spots := (spots json)[i := (spots json ! i)\<lparr>s_userId := None\<rparr>]\<rparr>"
  from endSession_found [OF assms]
  have i: "i < length (spots json)" and e: "endSession payload json = backfill i ?json1"
    by simp_all
  have m: "matches ?json1 (s_type (spots ?json1 ! i)) = matches json (s_type (spots json ! i))"
    using i by (intro ext) (simp add: matches_def)
  show ?thesis
  proof (cases "findIndex (matches json (s_type (spots json ! i))) (queue json)")
    case None
    then have "\<forall>e\<in>set (queue json). \<not> matches json (s_type (spots json ! i)) e"
      by (simp add: findIndex_None_iff)
    moreover from None m i have "backfill i ?json1 = ?json1"
      by (simp add: backfill_def)
    ultimately show ?thesis using e i by simp
  next
    case (Some idx)
    from findIndex_SomeD [OF Some]
    have "idx < length (queue json)" "matches json (s_type (spots json ! i)) (queue json ! idx)"
      "\<forall>j<idx. \<not> matches json (s_type (spots json ! i)) (queue json ! j)"
      by simp_all
    moreover from Some m i have "queue (backfill i ?json1) = splice1 idx (queue json)"
      and "s_userId (spots (backfill i ?json1) ! i) = Some (q_userId (queue json ! idx))"
      by (simp_all add: backfill_def)
    ultimately show ?thesis using e by auto
  qed
qed

text \<open>
  Claim C2 says that \<open>endSession\<close> seats the eligible queued user with the lowest
  position value. The action is evaluated here on a document produced by the actions
  themselves: Alice and Bob join the queue, \<open>moveQueue\<close> with delta -1 moves Bob up
  (the positions are exchanged, the document order stays Alice, Bob), and \<open>endSession\<close>
  of the first Tesla spot then seats Alice, whose position is 2, although Bob is eligible
  and has position 1: the scan follows the document order of the queue, not the
  positions.
\<close>

theorem endSession_ignores_position:
  "applyAction 100 (Some ''addToQueue'') (emptyPayload\<lparr>p_userId := Some 1\<rparr>)
     two_users = Inr (Some (two_users\<lparr>queue := [entry 100 1 1]\<rparr>)) \<and>
   applyAction 101 (Some ''addToQueue'') (emptyPayload\<lparr>p_userId := Some 2\<rparr>)
     (two_users\<lparr>queue := [entry 100 1 1]\<rparr>) = Inr (Some both_queued) \<and>
   applyAction 102 (Some ''moveQueue'') (emptyPayload\<lparr>p_userId := Some 2, p_delta := Some (- 1)\<rparr>)
     both_queued = Inr (Some bob_moved_up) \<and>
   applyAction 103 (Some ''endSession'') (emptyPayload\<lparr>p_spotId := Some ''tesla-1''\<rparr>)
     bob_moved_up = Inr (Some alice_seated_before_bob) \<and>
   s_userId (spots alice_seated_before_bob ! 0) = Some (u_id alice) \<and>
   queue alice_seated_before_bob = [entry 101 (u_id bob) 1] \<and>
   matches bob_moved_up ''Tesla'' (entry 101 (u_id bob) 1) \<and>
   q_position (entry 101 (u_id bob) 1) < q_position (entry 100 (u_id alice) 2)"
  by (simp add: applyAction_simps addToQueue_def moveQueue_def num_or_def math_max_def
      two_users_def both_queued_def bob_moved_up_def alice_seated_before_bob_def eval_defs)

text \<open>
  When the queue is in ascending position order in the document, the entry \<open>endSession\<close>
  takes has the lowest position among the eligible entries.
\<close>

lemma endSession_priority_if_sorted:
  assumes "sorted (map q_position (queue json))"
    and "findIndex (\<lambda>s. Some (s_id s) = p_spotId payload) (spots json) = Some i"
    and "findIndex (matches json (s_type (spots json ! i))) (queue json) = Some idx"
    and "e \<in> set (queue json)" and "matches json (s_type (spots json ! i)) e"
  shows "q_position (queue json ! idx) \<le> q_position e"
proof -
  from assms(4) obtain k where k: "k < length (queue json)" "queue json ! k = e"
    by (auto simp: in_set_conv_nth)
  from findIndex_SomeD [OF assms(3)] k assms(5) have "idx \<le> k"
    by (metis not_less)
  with assms(1) k(1) have "map q_position (queue json) ! idx \<le> map q_position (queue json) ! k"
    by (simp add: sorted_iff_nth_mono)
  with k \<open>idx \<le> k\<close> show ?thesis by simp
qed

section \<open>Dangling queue entries\<close>

text \<open>
  Claim C10. \<open>endSession\<close> and \<open>fillSpots\<close> never take a queue entry whose userId is the
  id of no user: the dangling entries of the queue are the same, in the same order, after
  the call, and every userId the backfill writes into a spot (the spot found by
  \<open>endSession\<close>, the spots logged for \<open>fillSpots\<close>) is the id of a user of the document.
\<close>

theorem backfill_skips_dangling:
  "filter (dangling json) (queue (endSession payload json)) = filter (dangling json) (queue json) \<and>
   filter (dangling json) (queue (fillSpots json)) = filter (dangling json) (queue json) \<and>
   (\<forall>i. findIndex (\<lambda>s. Some (s_id s) = p_spotId payload) (spots json) = Some i \<longrightarrow>
      s_userId (spots (endSession payload json) ! i) = None \<or>
      (\<exists>u\<in>set (users json). s_userId (spots (endSession payload json) ! i) = Some (u_id u))) \<and>
   (\<forall>(i, e)\<in>set (fill_log (emptySpots json) json).
      \<not> dangling json e \<and>
      (\<exists>u\<in>set (users json). s_userId (spots (fillSpots json) ! i) = Some (u_id u)))"
proof -
  have 1: "filter (dangling json) (queue (endSession payload json)) = filter (dangling json) (queue json)"
  proof (cases "findIndex (\<lambda>s. Some (s_id s) = p_spotId payload) (spots json)")
    case None
    then show ?thesis by (simp add: endSession_not_found)
  next
    case (Some i)
    let ?json1 = "json\<lparr>spots := (spots json)[i := (spots json ! i)\<lparr>s_userId := None\<rparr>]\<rparr>"
    have "dangling ?json1 = dangling json"
      by (intro ext) (simp add: dangling_def)
    with dangling_backfill [of ?json1 i] endSession_found [OF Some] show ?thesis
      by simp
  qed
  have 2: "filter (dangling json) (queue (fillSpots json)) = filter (dangling json) (queue json)"
    by (simp add: fillSpots_def dangling_fold_backfill)
  have 3: "s_userId (spots (endSession payload json) ! i) = None \<or>
      (\<exists>u\<in>set (users json). s_userId (spots (endSession payload json) ! i) = Some (u_id u))"
    if "findIndex (\<lambda>s. Some (s_id s) = p_spotId payload) (spots json) = Some i" for i
    using endSession_document_order [OF that] matches_user [of json "s_type (spots json ! i)"]
    by fastforce
  have 4: "\<not> dangling json e \<and>
      (\<exists>u\<in>set (users json). s_userId (spots (fillSpots json) ! i) = Some (u_id u))"
    if l: "(i, e) \<in> set (fill_log (emptySpots json) json)" for i e
  proof -
    from logged_entry_matches [OF l] have m: "matches json (s_type (spots json ! i)) e"
      by simp
    then have d: "\<not> dangling json e"
      using dangling_not_matches by blast
    from matches_user [OF m] obtain u where u: "u \<in> set (users json)" "u_id u = q_userId e"
      by blast
    from l have "i \<in> set (emptySpots json)"
      using fill_log_spots [of "emptySpots json" json] by force
    then have "i < length (spots json)" by (rule emptySpots_bound)
    with emptySpots_distinct l
    have "s_userId (spots (fold backfill (emptySpots json) json) ! i) = Some (q_userId e)"
      by (rule logged_spot_written)
    with u have "\<exists>u\<in>set (users json). s_userId (spots (fillSpots json) ! i) = Some (u_id u)"
      by (metis fillSpots_def)
    with d show ?thesis by simp
  qed
  from 1 2 3 4 show ?thesis by blast
qed

text \<open>
  The theorem at a document whose first queue entry is dangling: both actions seat
  Alice, who is behind it, and leave the dangling entry in the queue.
\<close>

theorem backfill_skips_dangling_witness:
  "dangling ghost_first (entry 99 7 0) \<and>
   queue (endSession (emptyPayload\<lparr>p_spotId := Some ''tesla-1''\<rparr>) ghost_first) = [entry 99 7 0] \<and>
   s_userId (spots (endSession (emptyPayload\<lparr>p_spotId := Some ''tesla-1''\<rparr>) ghost_first) ! 0) =
     Some (u_id alice) \<and>
   fill_log (emptySpots ghost_first) ghost_first = [(0, entry 100 1 1)] \<and>
   queue (fillSpots ghost_first) = [entry 99 7 0] \<and>
   filter (dangling ghost_first) (queue (fillSpots ghost_first)) =
     filter (dangling ghost_first) (queue ghost_first)"
  using backfill_skips_dangling [of ghost_first "emptyPayload\<lparr>p_spotId := Some ''tesla-1''\<rparr>"]
  by (simp add: ghost_first_def dangling_def fill_defs eval_defs)

section \<open>The handler\<close>

text \<open>
  Claim C9. A GET (also a request without HTTP verb, which counts as GET) with the
  configuration present, on a store without object at the configured URL, answers with
  status 200, content type application/json and the default document as body, and
  leaves the store as it is; the default document has four spots, two of type Tesla and
  two of type ChargePoint, all with \<open>userId\<close> null, no users, no queue entries and
  \<open>lastReset\<close> null.
\<close>

theorem get_returns_default:
  assumes "\<not> falsy_str (GH_TOKEN env)" and "\<not> falsy_str (GH_OWNER env)"
    and "\<not> falsy_str (GH_REPO env)" and "methodOf event = ''GET''" and "st (url env) = None"
  shows "handler env now newsha event st =
      Some (\<lparr>statusCode = 200, contentType = ''application/json'',
              r_body = Document defaultState\<rparr>, st) \<and>
    length (spots defaultState) = 4 \<and>
    map s_type (spots defaultState) = [''Tesla'', ''Tesla'', ''ChargePoint'', ''ChargePoint''] \<and>
    map s_userId (spots defaultState) = [None, None, None, None] \<and>
    users defaultState = [] \<and> queue defaultState = [] \<and> lastReset defaultState = None"
proof -
  from assms(1-4) have "precheck env event = None"
    by (simp add: precheck_def Let_def)
  moreover from assms(5) have "readFromRepo (store_get st (url env)) = Inr (None, None)"
    by (simp add: store_get_def readFromRepo_def)
  ultimately have "handler env now newsha event st = Some (ok_document defaultState, st)"
    using assms(4) by (simp add: handler_def afterRead_def docOf_def)
  then show ?thesis by (simp add: ok_document_def defaultState_def)
qed

text \<open>
  The theorem at a lower-case verb and at an absent one, on the empty store, with the
  document of the body written out.
\<close>

theorem get_returns_default_witness:
  "handler env0 0 ''v1'' \<lparr>httpMethod = Some ''get'', x_key = None, X_Key = None, e_body = NoBody\<rparr>
     Map.empty =
     Some (\<lparr>statusCode = 200, contentType = ''application/json'',
       r_body = Document
         \<lparr>users = [], queue = [],
          spots =
            [\<lparr>s_id = ''tesla-1'', s_type = ''Tesla'', s_label = ''Tesla #1'', s_userId = None\<rparr>,
             \<lparr>s_id = ''tesla-2'', s_type = ''Tesla'', s_label = ''Tesla #2'', s_userId = None\<rparr>,
             \<lparr>s_id = ''chargepoint-1'', s_type = ''ChargePoint'', s_label = ''ChargePoint #1'',
              s_userId = None\<rparr>,
             \<lparr>s_id = ''chargepoint-2'', s_type = ''ChargePoint'', s_label = ''ChargePoint #2'',
              s_userId = None\<rparr>],
          lastReset = None\<rparr>\<rparr>, Map.empty) \<and>
   handler env0 0 ''v1'' \<lparr>httpMethod = None, x_key = None, X_Key = None, e_body = NoBody\<rparr>
     Map.empty =
     Some (\<lparr>statusCode = 200, contentType = ''application/json'',
       r_body = Document defaultState\<rparr>, Map.empty)"
  using get_returns_default [of env0
      "\<lparr>httpMethod = Some ''get'', x_key = None, X_Key = None, e_body = NoBody\<rparr>" Map.empty 0 "''v1''"]
    get_returns_default [of env0
      "\<lparr>httpMethod = None, x_key = None, X_Key = None, e_body = NoBody\<rparr>" Map.empty 0 "''v1''"]
  by (simp add: env0_def falsy_str_def methodOf_def str_or_def toUpperCase_def defaultState_def)

text \<open>What a POST does to the store.\<close>

lemma read_store:
  "readFromRepo (store_get st u) = Inr (map_option fst (st u), map_option snd (st u))"
  by (cases "st u") (auto simp: store_get_def readFromRepo_def ok_def)

lemma decimal_409: "decimal 409 = ''409''"
  by (simp add: decimal.simps)

lemma store_put_accepted:
  "map_option snd (st u) = b_sha b \<Longrightarrow>
   ok (fst (store_put newsha st u b)) \<and>
   snd (store_put newsha st u b) = st(u \<mapsto> (b_content b, newsha))"
  by (simp add: store_put_def ok_def)

lemma store_put_rejected:
  "map_option snd (st u) \<noteq> b_sha b \<Longrightarrow> store_put newsha st u b = (409, st)"
  by (simp add: store_put_def)

text \<open>
  The write of an invocation is one PUT whose request carries the document the action
  returned and the token the invocation read (no token when that is falsy); the answer
  is ok when the store accepts it and the 500 of the \<open>catch\<close> with the status otherwise.
\<close>

lemma afterRead_put:
  assumes "methodOf event = ''POST''" and "bodyOf event = Inr (action, payload)"
    and "applyAction now action payload (docOf json0) = Inr (Some json')"
  shows "afterRead env now newsha event (Inr (json0, sha)) st =
    (case store_put newsha st (url env)
            \<lparr>b_message = ''EV state update'', b_content = json',
             b_sha = (if falsy_str sha then None else sha)\<rparr> of
       (status, st') \<Rightarrow>
         Some (if ok status
               then \<lparr>statusCode = 200, contentType = ''application/json'', r_body = OkTrue\<rparr>
               else \<lparr>statusCode = 500, contentType = ''text/plain'',
                      r_body = Text (''Error: Repo write failed: '' @ decimal status)\<rparr>, st'))"
  using assms
  by (simp add: afterRead_def writeToRepo_def put_request_of_def ok_true_def bad_def
      split: prod.split)

lemma afterRead_action:
  assumes "methodOf event = ''POST''" and "bodyOf event = Inr (action, payload)"
  shows "afterRead env now newsha event (Inr (json0, sha)) st =
    (case applyAction now action payload (docOf json0) of
       Inl r \<Rightarrow> Some (r, st)
     | Inr None \<Rightarrow> None
     | Inr (Some json') \<Rightarrow>
         if map_option snd (st (url env)) = (if falsy_str sha then None else sha)
         then Some (\<lparr>statusCode = 200, contentType = ''application/json'', r_body = OkTrue\<rparr>,
                    st(url env \<mapsto> (json', newsha)))
         else Some (\<lparr>statusCode = 500, contentType = ''text/plain'',
                      r_body = Text ''Error: Repo write failed: 409''\<rparr>, st))"
proof (cases "applyAction now action payload (docOf json0)")
  case (Inl r)
  with assms show ?thesis by (simp add: afterRead_def)
next
  case (Inr w)
  show ?thesis
  proof (cases w)
    case None
    with Inr assms show ?thesis by (simp add: afterRead_def)
  next
    case (Some json')
    let ?b = "\<lparr>b_message = ''EV state update'', b_content = json',
        b_sha = (if falsy_str sha then None else sha)\<rparr>"
    from Inr Some have a: "applyAction now action payload (docOf json0) = Inr (Some json')"
      by simp
    obtain status st' where sp: "store_put newsha st (url env) ?b = (status, st')"
      by (cases "store_put newsha st (url env) ?b")
    from afterRead_put [OF assms a, of env newsha sha st]
    have put: "afterRead env now newsha event (Inr (json0, sha)) st =
        Some (if ok status
              then \<lparr>statusCode = 200, contentType = ''application/json'', r_body = OkTrue\<rparr>
              else \<lparr>statusCode = 500, contentType = ''text/plain'',
                     r_body = Text (''Error: Repo write failed: '' @ decimal status)\<rparr>, st')"
      by (simp only: sp prod.case)
    show ?thesis
    proof (cases "map_option snd (st (url env)) = (if falsy_str sha then None else sha)")
      case True
      then have "map_option snd (st (url env)) = b_sha ?b" by simp
      then have "ok (fst (store_put newsha st (url env) ?b)) \<and>
          snd (store_put newsha st (url env) ?b) = st(url env \<mapsto> (b_content ?b, newsha))"
        by (rule store_put_accepted)
      with sp have "ok status" "st' = st(url env \<mapsto> (json', newsha))"
        by simp_all
      with put have "afterRead env now newsha event (Inr (json0, sha)) st =
          Some (\<lparr>statusCode = 200, contentType = ''application/json'', r_body = OkTrue\<rparr>,
                st(url env \<mapsto> (json', newsha)))"
        by simp
      then show ?thesis
        by (simp only: a sum.case option.case True if_True simp_thms)
    next
      case False
      then have "map_option snd (st (url env)) \<noteq> b_sha ?b" by simp
      then have "store_put newsha st (url env) ?b = (409, st)"
        by (rule store_put_rejected)
      with sp have "status = 409" "st' = st" by simp_all
      with put have "afterRead env now newsha event (Inr (json0, sha)) st =
          Some (\<lparr>statusCode = 500, contentType = ''text/plain'',
                  r_body = Text ''Error: Repo write failed: 409''\<rparr>, st)"
        by (simp add: ok_def decimal_409)
      then show ?thesis
        by (simp only: a sum.case option.case False if_False)
    qed
  qed
qed

lemma applyAction_None:
  assumes "applyAction now action payload json = Inr None"
  shows "action = Some ''writeAll'' \<and> p_document payload = None"
proof -
  have 1: "map_sum id Some x \<noteq> Inr None" for x :: "response + state"
    by (cases x) simp_all
  from assms 1 show ?thesis
    by (auto simp: applyAction_def writeAll_def split: if_splits)
qed

lemma afterRead_no_action:
  "methodOf event \<noteq> ''POST'' \<or> (\<exists>msg. bodyOf event = Inl msg) \<Longrightarrow>
   \<exists>resp. afterRead env now newsha event rd st = Some (resp, st)"
  by (auto simp: afterRead_def Let_def split: sum.splits prod.splits)

lemma afterRead_cases:
  "(\<exists>resp. afterRead env now newsha event rd st = Some (resp, st)) \<or>
   (\<exists>json0 sha p. rd = Inr (json0, sha) \<and> methodOf event = ''POST'' \<and>
      bodyOf event = Inr (Some ''writeAll'', p) \<and> p_document p = None \<and>
      afterRead env now newsha event rd st = None) \<or>
   (\<exists>json0 sha action payload json'.
      rd = Inr (json0, sha) \<and> methodOf event = ''POST'' \<and> bodyOf event = Inr (action, payload) \<and>
      applyAction now action payload (docOf json0) = Inr (Some json') \<and>
      map_option snd (st (url env)) = (if falsy_str sha then None else sha) \<and>
      afterRead env now newsha event rd st =
        Some (\<lparr>statusCode = 200, contentType = ''application/json'', r_body = OkTrue\<rparr>,
              st(url env \<mapsto> (json', newsha))))"
proof (cases rd)
  case (Inl msg)
  then show ?thesis by (simp add: afterRead_def)
next
  case (Inr p)
  obtain json0 sha where p: "p = (json0, sha)" by (cases p)
  show ?thesis
  proof (cases "methodOf event = ''POST''")
    case False
    then show ?thesis using afterRead_no_action [of event env now newsha rd st] by blast
  next
    case True
    show ?thesis
    proof (cases "bodyOf event")
      case (Inl msg)
      then show ?thesis using afterRead_no_action [of event env now newsha rd st] by blast
    next
      case b: (Inr ap)
      obtain action payload where ap: "ap = (action, payload)" by (cases ap)
      note ar = afterRead_action [OF True b [unfolded ap], of env now newsha json0 sha st]
      show ?thesis
      proof (cases "applyAction now action payload (docOf json0)")
        case (Inl r)
        with ar Inr p show ?thesis by simp
      next
        case j: (Inr w)
        show ?thesis
        proof (cases w)
          case None
          with j have n: "applyAction now action payload (docOf json0) = Inr None" by simp
          from applyAction_None [OF n] have "action = Some ''writeAll''" "p_document payload = None"
            by simp_all
          moreover from ar n have "afterRead env now newsha event (Inr (json0, sha)) st = None"
            by simp
          ultimately show ?thesis using Inr p True b ap by blast
        next
          case (Some json')
          with j have s: "applyAction now action payload (docOf json0) = Inr (Some json')"
            by simp
          show ?thesis
          proof (cases "map_option snd (st (url env)) = (if falsy_str sha then None else sha)")
            case False
            with ar s Inr p show ?thesis by simp
          next
            case m: True
            with ar s have "afterRead env now newsha event (Inr (json0, sha)) st =
                Some (\<lparr>statusCode = 200, contentType = ''application/json'', r_body = OkTrue\<rparr>,
                      st(url env \<mapsto> (json', newsha)))"
              by simp
            with Inr p True b ap s m show ?thesis by blast
          qed
        qed
      qed
    qed
  qed
qed

lemma handler_cases:
  "(\<exists>resp. handler env now newsha event st = Some (resp, st)) \<or>
   (\<exists>p. bodyOf event = Inr (Some ''writeAll'', p) \<and> p_document p = None \<and>
      handler env now newsha event st = None) \<or>
   (\<exists>action payload json'.
      bodyOf event = Inr (action, payload) \<and>
      applyAction now action payload (docOf (map_option fst (st (url env)))) = Inr (Some json') \<and>
      handler env now newsha event st =
        Some (\<lparr>statusCode = 200, contentType = ''application/json'', r_body = OkTrue\<rparr>,
              st(url env \<mapsto> (json', newsha))))"
proof (cases "precheck env event")
  case (Some r)
  then show ?thesis by (simp add: handler_def)
next
  case None
  let ?rd = "readFromRepo (store_get st (url env))"
  from None have h: "handler env now newsha event st = afterRead env now newsha event ?rd st"
    by (simp add: handler_def)
  from afterRead_cases [of env now newsha event ?rd st] show ?thesis
    unfolding h read_store by auto
qed

lemma handler_rejects:
  assumes "precheck env event = None" and "methodOf event = ''POST''"
    and "bodyOf event = Inr (action, payload)"
    and "applyAction now action payload (docOf (map_option fst (st (url env)))) = Inl r"
  shows "handler env now newsha event st = Some (r, st)"
  using assms afterRead_action [OF assms(2,3), of env now newsha]
  by (simp add: handler_def read_store)

lemma unknown_action:
  assumes "action \<notin> Some ` {''addUser'', ''addToQueue'', ''removeFromQueue'', ''moveQueue'',
      ''endSession'', ''fillSpots'', ''clearQueue'', ''writeAll''}"
  shows "applyAction now action payload json = Inl (bad 400 ''Unknown action'')"
proof -
  from assms have "action \<noteq> Some ''addUser''" "action \<noteq> Some ''addToQueue''"
    "action \<noteq> Some ''removeFromQueue''" "action \<noteq> Some ''moveQueue''"
    "action \<noteq> Some ''endSession''" "action \<noteq> Some ''fillSpots''"
    "action \<noteq> Some ''clearQueue''" "action \<noteq> Some ''writeAll''"
    by (simp_all only: image_insert insert_iff de_Morgan_disj not_False_eq_True simp_thms)
  then show ?thesis by (simp only: applyAction_def if_False)
qed

text \<open>The events built by \<open>post\<close> pass the checks before the read.\<close>

lemma post_event:
  "precheck env0 (post a p) = None" "methodOf (post a p) = ''POST''"
  "bodyOf (post a p) = Inr (Some a, p)"
  by (simp_all add: precheck_def methodOf_def bodyOf_def post_def env0_def toUpperCase_def
      str_or_def falsy_str_def)

text \<open>
  Claim C8. The three validation failures (\<open>addUser\<close> with a name that is empty after
  trimming, \<open>addToQueue\<close> with a missing or falsy userId, an unknown action) make the
  action return the response \<open>bad(400, ...)\<close>, of status 400, instead of a document;
  whenever the action of a POST returns a response instead of a document, the handler
  returns that response and leaves the store as it is; whenever an invocation ends with
  another store than it found, it has answered 200 ok and what it stored at the
  configured URL is the whole document returned by the action, applied to the document it
  read; and the only invocation without result in the model is a \<open>writeAll\<close> whose payload
  is not a state document.
\<close>

theorem validation_failure_writes_nothing:
  "(trim (str_or (p_name payload) []) = [] \<longrightarrow>
      applyAction now (Some ''addUser'') payload json = Inl (bad 400 ''Name required'')) \<and>
   (falsy (p_userId payload) \<longrightarrow>
      applyAction now (Some ''addToQueue'') payload json = Inl (bad 400 ''userId required'')) \<and>
   (action \<notin> Some ` {''addUser'', ''addToQueue'', ''removeFromQueue'', ''moveQueue'',
        ''endSession'', ''fillSpots'', ''clearQueue'', ''writeAll''} \<longrightarrow>
      applyAction now action payload json = Inl (bad 400 ''Unknown action'')) \<and>
   bad 400 msg = \<lparr>statusCode = 400, contentType = ''text/plain'', r_body = Text msg\<rparr> \<and>
   (\<forall>r. precheck env event = None \<and> methodOf event = ''POST'' \<and>
        bodyOf event = Inr (action, payload) \<and>
        applyAction now action payload (docOf (map_option fst (st (url env)))) = Inl r \<longrightarrow>
        handler env now newsha event st = Some (r, st)) \<and>
   (\<forall>resp st'. handler env now newsha event st = Some (resp, st') \<longrightarrow>
      st' = st \<or>
      (\<exists>a p json'.
         bodyOf event = Inr (a, p) \<and>
         applyAction now a p (docOf (map_option fst (st (url env)))) = Inr (Some json') \<and>
         resp = \<lparr>statusCode = 200, contentType = ''application/json'', r_body = OkTrue\<rparr> \<and>
         st' = st(url env \<mapsto> (json', newsha)))) \<and>
   (handler env now newsha event st = None \<longrightarrow>
      (\<exists>p. bodyOf event = Inr (Some ''writeAll'', p) \<and> p_document p = None))"
proof (intro conjI impI allI)
  assume "trim (str_or (p_name payload) []) = []"
  then show "applyAction now (Some ''addUser'') payload json = Inl (bad 400 ''Name required'')"
    by (simp add: applyAction_simps addUser_def)
next
  assume "falsy (p_userId payload)"
  then show "applyAction now (Some ''addToQueue'') payload json = Inl (bad 400 ''userId required'')"
    by (auto simp: applyAction_simps addToQueue_def falsy_def)
next
  assume "action \<notin> Some ` {''addUser'', ''addToQueue'', ''removeFromQueue'', ''moveQueue'',
        ''endSession'', ''fillSpots'', ''clearQueue'', ''writeAll''}"
  then show "applyAction now action payload json = Inl (bad 400 ''Unknown action'')"
    by (rule unknown_action)
next
  show "bad 400 msg = \<lparr>statusCode = 400, contentType = ''text/plain'', r_body = Text msg\<rparr>"
    by (simp add: bad_def)
next
  fix r
  assume "precheck env event = None \<and> methodOf event = ''POST'' \<and>
        bodyOf event = Inr (action, payload) \<and>
        applyAction now action payload (docOf (map_option fst (st (url env)))) = Inl r"
  then show "handler env now newsha event st = Some (r, st)"
    by (elim conjE) (rule handler_rejects)
next
  fix resp st'
  assume "handler env now newsha event st = Some (resp, st')"
  with handler_cases [of env now newsha event st]
  show "st' = st \<or>
      (\<exists>a p json'.
         bodyOf event = Inr (a, p) \<and>
         applyAction now a p (docOf (map_option fst (st (url env)))) = Inr (Some json') \<and>
         resp = \<lparr>statusCode = 200, contentType = ''application/json'', r_body = OkTrue\<rparr> \<and>
         st' = st(url env \<mapsto> (json', newsha)))"
    by auto
next
  assume "handler env now newsha event st = None"
  with handler_cases [of env now newsha event st]
  show "\<exists>p. bodyOf event = Inr (Some ''writeAll'', p) \<and> p_document p = None"
    by auto
qed

text \<open>A POST built by \<open>post\<close> on a store holding one document under version \<open>v1\<close>.\<close>

lemma handler_post:
  "handler env0 now newsha (post a p) (store_v1 json) =
    (case applyAction now (Some a) p json of
       Inl r \<Rightarrow> Some (r, store_v1 json)
     | Inr None \<Rightarrow> None
     | Inr (Some json') \<Rightarrow>
         Some (\<lparr>statusCode = 200, contentType = ''application/json'', r_body = OkTrue\<rparr>,
               (store_v1 json)(url env0 \<mapsto> (json', newsha))))"
proof -
  have v: "store_v1 json (url env0) = Some (json, ''v1'')"
    by (simp add: store_v1_def)
  have h: "handler env0 now newsha (post a p) (store_v1 json) =
      afterRead env0 now newsha (post a p) (Inr (Some json, Some ''v1'')) (store_v1 json)"
    by (simp add: handler_def post_event(1) read_store v)
  have m: "map_option snd (store_v1 json (url env0)) =
      (if falsy_str (Some ''v1'') then None else Some ''v1'')"
    by (simp add: v falsy_str_def)
  have d: "docOf (Some json) = json"
    by (simp add: docOf_def)
  show ?thesis
    unfolding h afterRead_action [OF post_event(2,3)] d
    by (simp only: m if_True simp_thms)
qed

text \<open>
  The theorem at three requests on a store holding a document: a name made of a no-break
  space, a space and a tab, an \<open>addToQueue\<close> without userId, and an action that does not
  exist. Each is answered with 400 and the store is the same afterwards. For comparison,
  \<open>clearQueue\<close> answers 200 and stores the whole new document, and \<open>writeAll\<close> with the
  payload \<open>{}\<close> has no result in the model.
\<close>

theorem validation_failure_writes_nothing_witness:
  "handler env0 5 ''v2''
     (post ''addUser'' (emptyPayload\<lparr>p_name := Some [CHR 0xA0, CHR 0x20, CHR 0x09]\<rparr>))
     (store_v1 alice_queued) =
     Some (\<lparr>statusCode = 400, contentType = ''text/plain'', r_body = Text ''Name required''\<rparr>,
           store_v1 alice_queued) \<and>
   handler env0 5 ''v2'' (post ''addToQueue'' emptyPayload) (store_v1 alice_queued) =
     Some (\<lparr>statusCode = 400, contentType = ''text/plain'', r_body = Text ''userId required''\<rparr>,
           store_v1 alice_queued) \<and>
   handler env0 5 ''v2'' (post ''dance'' emptyPayload) (store_v1 alice_queued) =
     Some (\<lparr>statusCode = 400, contentType = ''text/plain'', r_body = Text ''Unknown action''\<rparr>,
           store_v1 alice_queued) \<and>
   handler env0 5 ''v2'' (post ''clearQueue'' emptyPayload) (store_v1 alice_queued) =
     Some (\<lparr>statusCode = 200, contentType = ''application/json'', r_body = OkTrue\<rparr>,
           (store_v1 alice_queued)(url env0 \<mapsto> (alice_queued\<lparr>queue := []\<rparr>, ''v2''))) \<and>
   handler env0 5 ''v2'' (post ''writeAll'' emptyPayload) (store_v1 alice_queued) = None"
proof -
  let ?p = "emptyPayload\<lparr>p_name := Some [CHR 0xA0, CHR 0x20, CHR 0x09]\<rparr>"
  let ?st = "store_v1 alice_queued"
  let ?json = "docOf (map_option fst (?st (url env0)))"
  have name: "trim (str_or (p_name ?p) []) = []"
    by (simp add: emptyPayload_def trim_def is_space_def str_or_def)
  have userId: "falsy (p_userId emptyPayload)"
    by (simp add: emptyPayload_def falsy_def)
  have dance: "Some ''dance'' \<notin> Some ` {''addUser'', ''addToQueue'', ''removeFromQueue'',
      ''moveQueue'', ''endSession'', ''fillSpots'', ''clearQueue'', ''writeAll''}"
    by simp
  have 1: "handler env0 5 ''v2'' (post ''addUser'' ?p) ?st =
      Some (\<lparr>statusCode = 400, contentType = ''text/plain'', r_body = Text ''Name required''\<rparr>, ?st)"
    using validation_failure_writes_nothing [where payload = ?p and now = 5
        and action = "Some ''addUser''" and env = env0 and newsha = "''v2''"
        and event = "post ''addUser'' ?p" and st = ?st and json = ?json
        and msg = "''Name required''"]
      name post_event [of "''addUser''" ?p]
    by (metis (no_types, lifting))
  have 2: "handler env0 5 ''v2'' (post ''addToQueue'' emptyPayload) ?st =
      Some (\<lparr>statusCode = 400, contentType = ''text/plain'', r_body = Text ''userId required''\<rparr>,
            ?st)"
    using validation_failure_writes_nothing [where payload = emptyPayload and now = 5
        and action = "Some ''addToQueue''" and env = env0 and newsha = "''v2''"
        and event = "post ''addToQueue'' emptyPayload" and st = ?st and json = ?json
        and msg = "''userId required''"]
      userId post_event [of "''addToQueue''" emptyPayload]
    by (metis (no_types, lifting))
  have 3: "handler env0 5 ''v2'' (post ''dance'' emptyPayload) ?st =
      Some (\<lparr>statusCode = 400, contentType = ''text/plain'', r_body = Text ''Unknown action''\<rparr>,
            ?st)"
    using validation_failure_writes_nothing [where payload = emptyPayload and now = 5
        and action = "Some ''dance''" and env = env0 and newsha = "''v2''"
        and event = "post ''dance'' emptyPayload" and st = ?st and json = ?json
        and msg = "''Unknown action''"]
      dance post_event [of "''dance''" emptyPayload]
    by (metis (no_types, lifting))
  have 4: "handler env0 5 ''v2'' (post ''clearQueue'' emptyPayload) ?st =
      Some (\<lparr>statusCode = 200, contentType = ''application/json'', r_body = OkTrue\<rparr>,
            ?st(url env0 \<mapsto> (alice_queued\<lparr>queue := []\<rparr>, ''v2'')))"
    by (simp add: handler_post applyAction_simps clearQueue_def)
  have 5: "handler env0 5 ''v2'' (post ''writeAll'' emptyPayload) ?st = None"
    by (simp add: handler_post applyAction_simps writeAll_def emptyPayload_def)
  from 1 2 3 4 5 show ?thesis by (intro conjI)
qed

text \<open>
  Claim C3. Two invocations read the store when it holds version \<open>V\<close> at the configured
  URL (\<open>rd\<close> is what both reads return). The first one runs to its end on that store and
  leaves a store with another version, so its write was accepted and it answered 200 ok.
  The second one, a POST whose action returns a document, then runs on the store the
  first one left: its PUT request carries exactly the token \<open>V\<close> it read, the store
  answers 409 and keeps what the first one wrote, and the caller gets status 500 with
  the message of the failed write, not the ok answer. For every invocation, the write is
  one PUT whose request carries the document of the action and exactly the token of the
  invocation's own read (none when the read found no object), and the answer to the
  caller is 200 ok if the store accepts it and 500 with the status otherwise; an
  invocation running alone reads the token the store holds at that moment.
\<close>

theorem second_write_conflicts:
  assumes "st0 (url env) = Some (doc, V)"
    and "rd = readFromRepo (store_get st0 (url env))"
    and "afterRead env nowA shaA eventA rd st0 = Some (respA, st1)"
    and "map_option snd (st1 (url env)) \<noteq> Some V"
    and "methodOf eventB = ''POST''" and "bodyOf eventB = Inr (action, payload)"
    and "applyAction nowB action payload doc = Inr (Some json')"
  shows "rd = Inr (Some doc, Some V) \<and>
    respA = \<lparr>statusCode = 200, contentType = ''application/json'', r_body = OkTrue\<rparr> \<and>
    store_put shaB st1 (url env)
      \<lparr>b_message = ''EV state update'', b_content = json', b_sha = Some V\<rparr> = (409, st1) \<and>
    afterRead env nowB shaB eventB rd st1 =
      Some (\<lparr>statusCode = 500, contentType = ''text/plain'',
              r_body = Text ''Error: Repo write failed: 409''\<rparr>, st1) \<and>
    (\<forall>e n v ev j0 s st a p j.
       methodOf ev = ''POST'' \<and> bodyOf ev = Inr (a, p) \<and>
       applyAction n a p (docOf j0) = Inr (Some j) \<longrightarrow>
       afterRead e n v ev (Inr (j0, s)) st =
         (case store_put v st (url e)
                 \<lparr>b_message = ''EV state update'', b_content = j,
                  b_sha = (if falsy_str s then None else s)\<rparr> of
            (status, st') \<Rightarrow>
              Some (if ok status
                    then \<lparr>statusCode = 200, contentType = ''application/json'', r_body = OkTrue\<rparr>
                    else \<lparr>statusCode = 500, contentType = ''text/plain'',
                           r_body = Text (''Error: Repo write failed: '' @ decimal status)\<rparr>,
                    st'))) \<and>
    (\<forall>e n v ev st. precheck e ev = None \<longrightarrow>
       handler e n v ev st =
         afterRead e n v ev (Inr (map_option fst (st (url e)), map_option snd (st (url e)))) st)"
proof -
  from assms(1,2) have rd: "rd = Inr (Some doc, Some V)"
    by (simp add: read_store)
  from assms(1,4) have ne: "st1 \<noteq> st0" by auto
  from afterRead_cases [of env nowA shaA eventA rd st0] assms(3) ne
  have a: "respA = \<lparr>statusCode = 200, contentType = ''application/json'', r_body = OkTrue\<rparr>"
    and "map_option snd (st0 (url env)) = (if falsy_str (Some V) then None else Some V)"
    by (auto simp: rd)
  with assms(1) have v: "\<not> falsy_str (Some V)"
    by (auto split: if_splits)
  let ?b = "\<lparr>b_message = ''EV state update'', b_content = json', b_sha = Some V\<rparr>"
  from assms(4) have "map_option snd (st1 (url env)) \<noteq> b_sha ?b" by simp
  then have w: "store_put shaB st1 (url env) ?b = (409, st1)"
    by (rule store_put_rejected)
  from assms(4) v
  have m: "map_option snd (st1 (url env)) \<noteq> (if falsy_str (Some V) then None else Some V)"
    by simp
  from afterRead_action [OF assms(5,6), of env nowB shaB "Some doc" "Some V" st1] assms(7) m
  have b: "afterRead env nowB shaB eventB rd st1 =
      Some (\<lparr>statusCode = 500, contentType = ''text/plain'',
              r_body = Text ''Error: Repo write failed: 409''\<rparr>, st1)"
    by (simp add: rd docOf_def)
  have g: "\<forall>e n v ev j0 s st a p j.
       methodOf ev = ''POST'' \<and> bodyOf ev = Inr (a, p) \<and>
       applyAction n a p (docOf j0) = Inr (Some j) \<longrightarrow>
       afterRead e n v ev (Inr (j0, s)) st =
         (case store_put v st (url e)
                 \<lparr>b_message = ''EV state update'', b_content = j,
                  b_sha = (if falsy_str s then None else s)\<rparr> of
            (status, st') \<Rightarrow>
              Some (if ok status
                    then \<lparr>statusCode = 200, contentType = ''application/json'', r_body = OkTrue\<rparr>
                    else \<lparr>statusCode = 500, contentType = ''text/plain'',
                           r_body = Text (''Error: Repo write failed: '' @ decimal status)\<rparr>,
                    st'))"
    by (intro allI impI, elim conjE) (rule afterRead_put)
  have h: "\<forall>e n v ev st. precheck e ev = None \<longrightarrow>
       handler e n v ev st =
         afterRead e n v ev (Inr (map_option fst (st (url e)), map_option snd (st (url e)))) st"
    by (simp add: handler_def read_store)
  from rd a w b g h show ?thesis by (intro conjI)
qed

text \<open>
  The theorem at two \<open>addToQueue\<close> requests that both read version \<open>v1\<close>: the first
  stores its document as \<open>v2\<close> and is answered 200, the second is refused and answered
  500.
\<close>

theorem second_write_conflicts_witness:
  "afterRead env0 100 ''v2'' (post ''addToQueue'' (emptyPayload\<lparr>p_userId := Some 1\<rparr>))
     (Inr (Some two_users, Some ''v1'')) (store_v1 two_users) =
     Some (\<lparr>statusCode = 200, contentType = ''application/json'', r_body = OkTrue\<rparr>,
       (store_v1 two_users)(url env0 \<mapsto> (two_users\<lparr>queue := [entry 100 1 1]\<rparr>, ''v2''))) \<and>
   afterRead env0 101 ''v3'' (post ''addToQueue'' (emptyPayload\<lparr>p_userId := Some 2\<rparr>))
     (Inr (Some two_users, Some ''v1''))
     ((store_v1 two_users)(url env0 \<mapsto> (two_users\<lparr>queue := [entry 100 1 1]\<rparr>, ''v2''))) =
     Some (\<lparr>statusCode = 500, contentType = ''text/plain'',
             r_body = Text ''Error: Repo write failed: 409''\<rparr>,
       (store_v1 two_users)(url env0 \<mapsto> (two_users\<lparr>queue := [entry 100 1 1]\<rparr>, ''v2'')))"
proof -
  let ?pA = "emptyPayload\<lparr>p_userId := Some 1\<rparr>" and ?pB = "emptyPayload\<lparr>p_userId := Some 2\<rparr>"
  let ?rd = "Inr (Some two_users, Some ''v1'') :: string + (state option \<times> sha option)"
  let ?st1 = "(store_v1 two_users)(url env0 \<mapsto> (two_users\<lparr>queue := [entry 100 1 1]\<rparr>, ''v2''))"
  have 1: "store_v1 two_users (url env0) = Some (two_users, ''v1'')"
    by (simp add: store_v1_def)
  have 2: "?rd = readFromRepo (store_get (store_v1 two_users) (url env0))"
    by (simp add: read_store 1)
  have a: "applyAction 100 (Some ''addToQueue'') ?pA two_users =
      Inr (Some (two_users\<lparr>queue := [entry 100 1 1]\<rparr>))"
    by (simp add: applyAction_simps addToQueue_def two_users_def eval_defs)
  have 3: "afterRead env0 100 ''v2'' (post ''addToQueue'' ?pA) ?rd (store_v1 two_users) =
      Some (\<lparr>statusCode = 200, contentType = ''application/json'', r_body = OkTrue\<rparr>, ?st1)"
    using afterRead_action [OF post_event(2,3), of env0 100 "''v2''" "''addToQueue''" ?pA
        "Some two_users" "Some ''v1''" "store_v1 two_users"] a 1
    by (simp add: docOf_def falsy_str_def)
  have 4: "map_option snd (?st1 (url env0)) \<noteq> Some ''v1''"
    by simp
  have b: "applyAction 101 (Some ''addToQueue'') ?pB two_users =
      Inr (Some (two_users\<lparr>queue := [entry 101 2 1]\<rparr>))"
    by (simp add: applyAction_simps addToQueue_def two_users_def eval_defs)
  from second_write_conflicts [OF 1 2 3 4 post_event(2,3) b, of "''v3''"] 3
  show ?thesis by blast
qed

end
